theory Spec2Isabelle
  imports Main "HOL-Library.Char_ord" "HOL-Library.List_Lexorder" "HOL-Library.AList"
begin

section \<open>The scheduler of \<^verbatim>\<open>scheduler.py\<close>\<close>

text \<open>
  A Python \<^verbatim>\<open>str\<close> is modelled as a \<^typ>\<open>string\<close>, a list of code points below 256;
  Python compares strings code point by code point, which is the lexicographic order of
  lists over the order of characters. A Python \<^verbatim>\<open>int\<close> is an \<^typ>\<open>int\<close>.
  Every exception that the queries can raise is a \<^verbatim>\<open>ValueError\<close> of the time parser;
  a query returns \<open>Inl ValueError\<close> where the Python raises.
\<close>

subsection \<open>Python primitives used by the time conversion\<close>

datatype error = ValueError

definition is_digit :: "char \<Rightarrow> bool" where
  "is_digit c = (48 \<le> (of_char c :: nat) \<and> (of_char c :: nat) \<le> 57)"

definition digit_val :: "char \<Rightarrow> nat" where
  "digit_val c = of_char c - 48"

definition digit_char :: "nat \<Rightarrow> char" where
  "digit_char d = char_of (48 + d)"

text \<open>
  The code points below 256 that \<^verbatim>\<open>int\<close> skips as white space around a number: the
  ASCII white space, and the two Unicode spaces of that range (next line, no-break space).
\<close>

definition py_isspace :: "char \<Rightarrow> bool" where
  "py_isspace c = (let n = (of_char c :: nat) in
     (9 \<le> n \<and> n \<le> 13) \<or> n = 32 \<or> n = 133 \<or> n = 160)"

definition strip :: "string \<Rightarrow> string" where
  "strip s = rev (dropWhile py_isspace (rev (dropWhile py_isspace s)))"

text \<open>
  The digits of a decimal literal after its first digit: a digit, or one underscore
  followed by a digit.
\<close>

fun py_digits :: "nat \<Rightarrow> string \<Rightarrow> nat option" where
  "py_digits acc [] = Some acc"
| "py_digits acc [c] = (if is_digit c then Some (10 * acc + digit_val c) else None)"
| "py_digits acc (c # d # cs) =
     (if is_digit c then py_digits (10 * acc + digit_val c) (d # cs)
      else if c = CHR ''_'' \<and> is_digit d then py_digits (10 * acc + digit_val d) cs
      else None)"

definition py_nat :: "string \<Rightarrow> nat option" where
  "py_nat s = (case s of [] \<Rightarrow> None
     | c # cs \<Rightarrow> if is_digit c then py_digits (digit_val c) cs else None)"

text \<open>\<^verbatim>\<open>int(s)\<close> in base 10; \<open>None\<close> is the \<^verbatim>\<open>ValueError\<close>.\<close>

definition py_int :: "string \<Rightarrow> int option" where
  "py_int s = (case strip s of [] \<Rightarrow> None
     | c # cs \<Rightarrow>
         if c = CHR ''-'' then map_option (\<lambda>n. - int n) (py_nat cs)
         else if c = CHR ''+'' then map_option int (py_nat cs)
         else map_option int (py_nat (c # cs)))"

text \<open>\<^verbatim>\<open>s.split(':')\<close>: one more part than there are colons.\<close>

fun split_colon :: "string \<Rightarrow> string list" where
  "split_colon [] = [[]]"
| "split_colon (c # cs) =
     (if c = CHR '':'' then [] # split_colon cs
      else (let ps = split_colon cs in (c # hd ps) # tl ps))"

text \<open>\<^verbatim>\<open>str(n)\<close> for a natural number.\<close>

function str_nat :: "nat \<Rightarrow> string" where
  "str_nat n = (if n < 10 then [digit_char n] else str_nat (n div 10) @ [digit_char (n mod 10)])"
  by pat_completeness auto
termination
  by (relation "measure (\<lambda>n. n)") auto

declare str_nat.simps [simp del]

text \<open>
  The format \<^verbatim>\<open>{n:02d}\<close>: sign-aware zero padding to width two. A negative number
  already has two characters.
\<close>

definition format_02d :: "int \<Rightarrow> string" where
  "format_02d n =
     (if n < 0 then CHR ''-'' # str_nat (nat (- n))
      else if n < 10 then CHR ''0'' # str_nat (nat n)
      else str_nat (nat n))"

subsection \<open>Time conversion\<close>

definition time_to_minutes :: "string \<Rightarrow> error + int" where
  "time_to_minutes time_str =
     (case map py_int (split_colon time_str) of
        [Some hours, Some minutes] \<Rightarrow> Inr (hours * 60 + minutes)
      | _ \<Rightarrow> Inl ValueError)"

definition minutes_to_time :: "int \<Rightarrow> string" where
  "minutes_to_time minutes =
     (let hours = minutes div 60; mins = minutes mod 60
      in format_02d hours @ '':'' @ format_02d mins)"

definition parse_time_range :: "string \<Rightarrow> string \<Rightarrow> error + (int \<times> int)" where
  "parse_time_range start end' =
     (case time_to_minutes start of Inl e \<Rightarrow> Inl e
      | Inr s \<Rightarrow> (case time_to_minutes end' of Inl e \<Rightarrow> Inl e | Inr e \<Rightarrow> Inr (s, e)))"

subsection \<open>Merging overlapping slots\<close>

text \<open>
  \<^verbatim>\<open>_merge_overlapping_slots\<close> only compares the components of its pairs, so it is
  defined for every linear order; \<^verbatim>\<open>get_busy_slots\<close> calls it on pairs of strings.
  \<^verbatim>\<open>sorted(slots, key=...)\<close> is a stable sort, as \<^const>\<open>sort_key\<close> is. The loop
  keeps \<^verbatim>\<open>merged\<close> non-empty, so \<^verbatim>\<open>merged[-1]\<close> is its last element.
\<close>

definition merge_step :: "('a::linorder \<times> 'a) list \<Rightarrow> 'a \<times> 'a \<Rightarrow> ('a \<times> 'a) list" where
  "merge_step merged current =
     (let last' = last merged
      in if fst current \<le> snd last'
         then butlast merged @ [(fst last', max (snd last') (snd current))]
         else merged @ [current])"

definition merge_overlapping_slots :: "('a::linorder \<times> 'a) list \<Rightarrow> ('a \<times> 'a) list" where
  "merge_overlapping_slots slots =
     (if slots = [] then []
      else (let sorted_slots = sort_key fst slots
            in foldl merge_step [hd sorted_slots] (tl sorted_slots)))"

subsection \<open>The payload and the calendar index\<close>

text \<open>
  The payload that \<^verbatim>\<open>_fetch_data\<close> returns, with the fields the scheduler reads.
  A Python \<^verbatim>\<open>dict\<close> keeps its keys in insertion order and overwrites the value of a key
  that is already there: an association list under \<^const>\<open>AList.update\<close>.
\<close>

record day =
  day_id :: int
  day_date :: string
  day_start :: string
  day_end :: string

record timeslot =
  timeslot_id :: int
  timeslot_day_id :: int
  timeslot_start :: string
  timeslot_end :: string

record payload =
  payload_days :: "day list"
  payload_timeslots :: "timeslot list"

record scheduler =
  data :: payload
  days :: "(string \<times> day) list"
  timeslots :: "(string \<times> (string \<times> string) list) list"

text \<open>
  \<^verbatim>\<open>_organize_timeslots\<close>: a time slot is filed under the date of the first day with
  its \<^verbatim>\<open>day_id\<close>; it is dropped when there is no such day, and also when that date is
  the empty string (\<^verbatim>\<open>if date:\<close>).
\<close>

definition organize_timeslots :: "payload \<Rightarrow> (string \<times> (string \<times> string) list) list" where
  "organize_timeslots d =
     (let timeslots_by_date =
            foldl (\<lambda>tbd day. AList.update (day_date day) [] tbd) [] (payload_days d)
      in foldl (\<lambda>tbd ts.
            (case find (\<lambda>day. day_id day = timeslot_day_id ts) (payload_days d) of
               None \<Rightarrow> tbd
             | Some day \<Rightarrow>
                 if day_date day \<noteq> []
                 then AList.map_entry (day_date day)
                        (\<lambda>l. l @ [(timeslot_start ts, timeslot_end ts)]) tbd
                 else tbd))
          timeslots_by_date (payload_timeslots d))"

text \<open>The constructor, given the payload that the fetch returned.\<close>

definition Scheduler :: "payload \<Rightarrow> scheduler" where
  "Scheduler d =
     \<lparr> data = d,
       days = foldl (\<lambda>m day. AList.update (day_date day) day m) [] (payload_days d),
       timeslots = organize_timeslots d \<rparr>"

subsection \<open>The queries\<close>

definition get_busy_slots :: "scheduler \<Rightarrow> string \<Rightarrow> (string \<times> string) list" where
  "get_busy_slots s date =
     (case map_of (timeslots s) date of
        None \<Rightarrow> []
      | Some busy_slots \<Rightarrow> merge_overlapping_slots busy_slots)"

text \<open>
  The loop of \<^verbatim>\<open>get_free_slots\<close> over the merged busy slots, with its two variables
  \<^verbatim>\<open>free_slots\<close> and \<^verbatim>\<open>prev_end\<close>.
\<close>

fun free_loop ::
  "(string \<times> string) list \<Rightarrow> (string \<times> string) list \<Rightarrow> int
     \<Rightarrow> error + ((string \<times> string) list \<times> int)" where
  "free_loop [] free_slots prev_end = Inr (free_slots, prev_end)"
| "free_loop ((busy_start, busy_end) # rest) free_slots prev_end =
     (case parse_time_range busy_start busy_end of
        Inl e \<Rightarrow> Inl e
      | Inr (busy_start_min, busy_end_min) \<Rightarrow>
          free_loop rest
            (if busy_start_min > prev_end
             then free_slots @ [(minutes_to_time prev_end, minutes_to_time busy_start_min)]
             else free_slots)
            (max prev_end busy_end_min))"

definition get_free_slots :: "scheduler \<Rightarrow> string \<Rightarrow> error + (string \<times> string) list" where
  "get_free_slots s date =
     (case map_of (days s) date of
        None \<Rightarrow> Inr []
      | Some work_day \<Rightarrow>
          (case parse_time_range (day_start work_day) (day_end work_day) of
             Inl e \<Rightarrow> Inl e
           | Inr (work_start, work_end) \<Rightarrow>
               (case free_loop (get_busy_slots s date) [] work_start of
                  Inl e \<Rightarrow> Inl e
                | Inr (free_slots, prev_end) \<Rightarrow>
                    Inr (if prev_end < work_end
                         then free_slots @ [(minutes_to_time prev_end, minutes_to_time work_end)]
                         else free_slots))))"

text \<open>The loop of \<^verbatim>\<open>is_available\<close> over the merged busy slots.\<close>

fun overlap_loop :: "int \<Rightarrow> int \<Rightarrow> (string \<times> string) list \<Rightarrow> error + bool" where
  "overlap_loop slot_start slot_end [] = Inr True"
| "overlap_loop slot_start slot_end ((busy_start, busy_end) # rest) =
     (case parse_time_range busy_start busy_end of
        Inl e \<Rightarrow> Inl e
      | Inr (busy_start_min, busy_end_min) \<Rightarrow>
          if \<not> (slot_end \<le> busy_start_min \<or> slot_start \<ge> busy_end_min) then Inr False
          else overlap_loop slot_start slot_end rest)"

definition is_available :: "scheduler \<Rightarrow> string \<Rightarrow> string \<Rightarrow> string \<Rightarrow> error + bool" where
  "is_available s date start end' =
     (case map_of (days s) date of
        None \<Rightarrow> Inr False
      | Some work_day \<Rightarrow>
          (case parse_time_range (day_start work_day) (day_end work_day) of
             Inl e \<Rightarrow> Inl e
           | Inr (work_start, work_end) \<Rightarrow>
               (case parse_time_range start end' of
                  Inl e \<Rightarrow> Inl e
                | Inr (slot_start, slot_end) \<Rightarrow>
                    if slot_start < work_start \<or> slot_end > work_end then Inr False
                    else overlap_loop slot_start slot_end (get_busy_slots s date))))"

text \<open>
  The two loops of \<^verbatim>\<open>find_slot_for_duration\<close>: over the free slots of one date
  (\<open>None\<close>: no slot of this date fits), and over the sorted dates.
\<close>

fun slot_loop ::
  "string \<Rightarrow> int \<Rightarrow> (string \<times> string) list \<Rightarrow> error + (string \<times> string \<times> string) option" where
  "slot_loop date duration_minutes [] = Inr None"
| "slot_loop date duration_minutes ((start, end') # rest) =
     (case time_to_minutes start of
        Inl e \<Rightarrow> Inl e
      | Inr start_min \<Rightarrow>
          (case time_to_minutes end' of
             Inl e \<Rightarrow> Inl e
           | Inr end_min \<Rightarrow>
               if end_min - start_min \<ge> duration_minutes
               then Inr (Some (date, start, minutes_to_time (start_min + duration_minutes)))
               else slot_loop date duration_minutes rest))"

fun date_loop ::
  "scheduler \<Rightarrow> int \<Rightarrow> string list \<Rightarrow> error + (string \<times> string \<times> string) option" where
  "date_loop s duration_minutes [] = Inr None"
| "date_loop s duration_minutes (date # rest) =
     (case get_free_slots s date of
        Inl e \<Rightarrow> Inl e
      | Inr free_slots \<Rightarrow>
          (case slot_loop date duration_minutes free_slots of
             Inl e \<Rightarrow> Inl e
           | Inr (Some found) \<Rightarrow> Inr (Some found)
           | Inr None \<Rightarrow> date_loop s duration_minutes rest))"

definition find_slot_for_duration ::
  "scheduler \<Rightarrow> int \<Rightarrow> error + (string \<times> string \<times> string) option" where
  "find_slot_for_duration s duration_minutes =
     date_loop s duration_minutes (sort (map fst (days s)))"

subsection \<open>The fixture of the tests\<close>

definition test_data :: payload where
  "test_data =
     \<lparr> payload_days =
         [\<lparr> day_id = 1, day_date = ''2024-10-10'', day_start = ''09:00'', day_end = ''18:00'' \<rparr>,
          \<lparr> day_id = 2, day_date = ''2024-10-11'', day_start = ''08:00'', day_end = ''17:00'' \<rparr>],
       payload_timeslots =
         [\<lparr> timeslot_id = 1, timeslot_day_id = 1,
            timeslot_start = ''11:00'', timeslot_end = ''12:00'' \<rparr>,
          \<lparr> timeslot_id = 3, timeslot_day_id = 2,
            timeslot_start = ''09:30'', timeslot_end = ''16:00'' \<rparr>] \<rparr>"

section \<open>Notions of the specification and of the proofs\<close>

text \<open>The merging loop with the last element of \<^verbatim>\<open>merged\<close> held apart.\<close>

fun merge_from :: "'a::linorder \<times> 'a \<Rightarrow> ('a \<times> 'a) list \<Rightarrow> ('a \<times> 'a) list" where
  "merge_from cur [] = [cur]"
| "merge_from cur (x # xs) =
     (if fst x \<le> snd cur then merge_from (fst cur, max (snd cur) (snd x)) xs
      else cur # merge_from x xs)"

text \<open>A well-formed time of day: two digits, a colon, two digits, below 24:00.\<close>

definition wf_time :: "string \<Rightarrow> bool" where
  "wf_time t =
     (case t of
        [h1, h2, c, m1, m2] \<Rightarrow>
          is_digit h1 \<and> is_digit h2 \<and> c = CHR '':'' \<and> is_digit m1 \<and> is_digit m2
          \<and> 10 * digit_val h1 + digit_val h2 < 24 \<and> digit_val m1 < 6
      | _ \<Rightarrow> False)"

definition wf_slot :: "string \<times> string \<Rightarrow> bool" where
  "wf_slot p = (wf_time (fst p) \<and> wf_time (snd p))"

text \<open>A slot of minutes as the pair of time strings that the queries return.\<close>

definition slot_time :: "int \<times> int \<Rightarrow> string \<times> string" where
  "slot_time p = (minutes_to_time (fst p), minutes_to_time (snd p))"

text \<open>The slots of a list read as minutes, as the loops of the queries read them.\<close>

fun parse_slots :: "(string \<times> string) list \<Rightarrow> error + (int \<times> int) list" where
  "parse_slots [] = Inr []"
| "parse_slots ((start, end') # rest) =
     (case parse_time_range start end' of
        Inl e \<Rightarrow> Inl e
      | Inr p \<Rightarrow> (case parse_slots rest of Inl e \<Rightarrow> Inl e | Inr ps \<Rightarrow> Inr (p # ps)))"

text \<open>Both ends of a slot within one day.\<close>

definition in_day :: "int \<times> int \<Rightarrow> bool" where
  "in_day p = (0 \<le> fst p \<and> fst p < 1440 \<and> 0 \<le> snd p \<and> snd p < 1440)"

text \<open>
  The reference procedure for the busy slots, over minutes, in the words of the
  specification of the interval merge: sort by start, stably; fold from the left with a
  current merged interval, which a next interval starting at or before its end extends
  to the maximum of the two ends, and which any other next interval closes.
\<close>

fun fold_intervals :: "int \<times> int \<Rightarrow> (int \<times> int) list \<Rightarrow> (int \<times> int) list" where
  "fold_intervals current [] = [current]"
| "fold_intervals current (nxt # rest) =
     (if fst nxt \<le> snd current
      then fold_intervals (fst current, max (snd current) (snd nxt)) rest
      else current # fold_intervals nxt rest)"

definition mergeOverlapping :: "(int \<times> int) list \<Rightarrow> (int \<times> int) list" where
  "mergeOverlapping intervals =
     (case sort_key fst intervals of
        [] \<Rightarrow> []
      | first # rest \<Rightarrow> fold_intervals first rest)"

text \<open>Convert each end to minutes, merge over minutes, convert the result back.\<close>

definition reference_busy_slots :: "(string \<times> string) list \<Rightarrow> error + (string \<times> string) list" where
  "reference_busy_slots raw =
     (case parse_slots raw of
        Inl e \<Rightarrow> Inl e
      | Inr intervals \<Rightarrow> Inr (map slot_time (mergeOverlapping intervals)))"

text \<open>A day with overlapping, touching and unsorted busy slots.\<close>

definition overlapping_data :: payload where
  "overlapping_data =
     \<lparr> payload_days =
         [\<lparr> day_id = 1, day_date = ''2024-10-10'', day_start = ''09:00'', day_end = ''18:00'' \<rparr>],
       payload_timeslots =
         [\<lparr> timeslot_id = 1, timeslot_day_id = 1,
            timeslot_start = ''13:30'', timeslot_end = ''14:00'' \<rparr>,
          \<lparr> timeslot_id = 2, timeslot_day_id = 1,
            timeslot_start = ''10:00'', timeslot_end = ''11:15'' \<rparr>,
          \<lparr> timeslot_id = 3, timeslot_day_id = 1,
            timeslot_start = ''11:15'', timeslot_end = ''12:00'' \<rparr>] \<rparr>"

text \<open>A day whose one busy slot starts after the end of work.\<close>

definition after_hours_data :: payload where
  "after_hours_data =
     \<lparr> payload_days =
         [\<lparr> day_id = 1, day_date = ''2024-10-10'', day_start = ''09:00'', day_end = ''18:00'' \<rparr>],
       payload_timeslots =
         [\<lparr> timeslot_id = 1, timeslot_day_id = 1,
            timeslot_start = ''19:00'', timeslot_end = ''20:00'' \<rparr>] \<rparr>"

text \<open>
  The loop of \<^verbatim>\<open>get_free_slots\<close> over busy slots in minutes: the gaps it emits from a
  cursor, the cursor after the loop, and the free slots of a working day.
\<close>

fun gaps :: "int \<Rightarrow> (int \<times> int) list \<Rightarrow> (int \<times> int) list" where
  "gaps c [] = []"
| "gaps c ((b, e) # rest) = (if b > c then [(c, b)] else []) @ gaps (max c e) rest"

fun cursor :: "int \<Rightarrow> (int \<times> int) list \<Rightarrow> int" where
  "cursor c [] = c"
| "cursor c ((b, e) # rest) = cursor (max c e) rest"

definition free_minutes :: "int \<Rightarrow> int \<Rightarrow> (int \<times> int) list \<Rightarrow> (int \<times> int) list" where
  "free_minutes ws we bm =
     gaps ws bm @ (if cursor ws bm < we then [(cursor ws bm, we)] else [])"

text \<open>A slot is long enough for a duration.\<close>

definition fits :: "int \<Rightarrow> int \<times> int \<Rightarrow> bool" where
  "fits duration p = (duration \<le> snd p - fst p)"

text \<open>The free slots of the fixture of the tests, in minutes.\<close>

definition test_free_minutes :: "string \<Rightarrow> (int \<times> int) list" where
  "test_free_minutes date =
     (if date = ''2024-10-10'' then [(540, 660), (720, 1080)] else [(480, 570), (960, 1020)])"

text \<open>The minutes of a half-open slot.\<close>

definition minutes :: "int \<times> int \<Rightarrow> int set" where
  "minutes p = {fst p..<snd p}"

text \<open>A slot is an interval that lies within the working hours from \<open>ws\<close> to \<open>we\<close>.\<close>

definition within :: "int \<Rightarrow> int \<Rightarrow> int \<times> int \<Rightarrow> bool" where
  "within ws we p = (ws \<le> fst p \<and> fst p \<le> snd p \<and> snd p \<le> we)"

text \<open>The number of slots of a list that contain a minute.\<close>

definition covering :: "int \<Rightarrow> (int \<times> int) list \<Rightarrow> nat" where
  "covering m l = length (filter (\<lambda>p. fst p \<le> m \<and> m < snd p) l)"

text \<open>A day whose busy slots carry a time that is not zero-padded.\<close>

definition unpadded_data :: payload where
  "unpadded_data =
     \<lparr> payload_days =
         [\<lparr> day_id = 1, day_date = ''2024-10-10'', day_start = ''09:00'', day_end = ''18:00'' \<rparr>],
       payload_timeslots =
         [\<lparr> timeslot_id = 1, timeslot_day_id = 1,
            timeslot_start = ''9:30'', timeslot_end = ''10:00'' \<rparr>,
          \<lparr> timeslot_id = 2, timeslot_day_id = 1,
            timeslot_start = ''10:00'', timeslot_end = ''11:00'' \<rparr>] \<rparr>"

section \<open>Merging\<close>

lemma foldl_merge_step: "foldl merge_step (pre @ [cur]) xs = pre @ merge_from cur xs"
proof (induction xs arbitrary: pre cur)
  case Nil
  show ?case by simp
next
  case (Cons x xs)
  show ?case
  proof (cases "fst x \<le> snd cur")
    case True
    then have "merge_step (pre @ [cur]) x = pre @ [(fst cur, max (snd cur) (snd x))]"
      by (simp add: merge_step_def)
    with True Cons.IH [of pre "(fst cur, max (snd cur) (snd x))"] show ?thesis by simp
  next
    case False
    then have "merge_step (pre @ [cur]) x = (pre @ [cur]) @ [x]"
      by (simp add: merge_step_def)
    with False Cons.IH [of "pre @ [cur]" x] show ?thesis by simp
  qed
qed

lemma merge_overlapping_slots_sorted_input:
  "merge_overlapping_slots slots =
     (case sort_key fst slots of [] \<Rightarrow> [] | x # xs \<Rightarrow> merge_from x xs)"
proof (cases "sort_key fst slots")
  case Nil
  then have "slots = []" by (metis length_sort length_0_conv)
  then show ?thesis by (simp add: merge_overlapping_slots_def)
next
  case (Cons x xs)
  then have ne: "slots \<noteq> []" by auto
  from foldl_merge_step [of "[]" x xs] Cons ne show ?thesis
    by (simp add: merge_overlapping_slots_def)
qed

lemma merge_from_starts: "fst ` set (merge_from cur xs) \<subseteq> fst ` set (cur # xs)"
  by (induction cur xs rule: merge_from.induct) (auto split: if_splits)

lemma merge_from_hd: "\<exists>e ys. merge_from cur xs = (fst cur, e) # ys \<and> snd cur \<le> e"
proof (induction cur xs rule: merge_from.induct)
  case (1 cur)
  show ?case by (cases cur) simp
next
  case (2 cur x xs)
  show ?case
  proof (cases "fst x \<le> snd cur")
    case True
    with 2 obtain e ys where "merge_from (fst cur, max (snd cur) (snd x)) xs = (fst cur, e) # ys"
      "max (snd cur) (snd x) \<le> e" by auto
    with True show ?thesis by auto
  next
    case False
    then show ?thesis by (cases cur) simp
  qed
qed

lemma merge_from_gaps:
  "sorted (map fst (cur # xs)) \<Longrightarrow> sorted_wrt (\<lambda>a b. snd a < fst b) (merge_from cur xs)"
proof (induction cur xs rule: merge_from.induct)
  case (1 cur)
  show ?case by simp
next
  case (2 cur x xs)
  show ?case
  proof (cases "fst x \<le> snd cur")
    case True
    from "2.prems" have "sorted (map fst ((fst cur, max (snd cur) (snd x)) # xs))" by auto
    with True "2.IH"(1) show ?thesis by simp
  next
    case False
    from "2.prems" have s: "sorted (map fst (x # xs))" by simp
    have "\<forall>b \<in> set (merge_from x xs). snd cur < fst b"
    proof
      fix b assume "b \<in> set (merge_from x xs)"
      then have "fst b \<in> fst ` set (x # xs)" using merge_from_starts [of x xs] by blast
      with s have "fst x \<le> fst b" by auto
      with False show "snd cur < fst b" by simp
    qed
    with False "2.IH"(2) s show ?thesis by simp
  qed
qed

lemma merge_from_sorted_starts:
  "sorted (map fst (cur # xs)) \<Longrightarrow> sorted (map fst (merge_from cur xs))"
proof (induction cur xs rule: merge_from.induct)
  case (1 cur)
  show ?case by simp
next
  case (2 cur x xs)
  show ?case
  proof (cases "fst x \<le> snd cur")
    case True
    from "2.prems" have "sorted (map fst ((fst cur, max (snd cur) (snd x)) # xs))" by auto
    with True "2.IH"(1) show ?thesis by simp
  next
    case False
    from "2.prems" have s: "sorted (map fst (x # xs))" by simp
    have "\<forall>b \<in> set (merge_from x xs). fst cur \<le> fst b"
    proof
      fix b assume "b \<in> set (merge_from x xs)"
      then have "fst b \<in> fst ` set (x # xs)" using merge_from_starts [of x xs] by blast
      with "2.prems" show "fst cur \<le> fst b" by auto
    qed
    with False "2.IH"(2) s show ?thesis by simp
  qed
qed

lemma merge_from_proper:
  "\<forall>p \<in> set (cur # xs). fst p \<le> snd p \<Longrightarrow> \<forall>p \<in> set (merge_from cur xs). fst p \<le> snd p"
proof (induction cur xs rule: merge_from.induct)
  case (1 cur)
  then show ?case by simp
next
  case (2 cur x xs)
  from "2.prems" have c: "fst cur \<le> snd cur" and x: "fst x \<le> snd x"
    and r: "\<forall>p \<in> set xs. fst p \<le> snd p" by simp_all
  show ?case
  proof (cases "fst x \<le> snd cur")
    case True
    from c have "fst cur \<le> max (snd cur) (snd x)" by (simp add: le_max_iff_disj)
    with r have "\<forall>p \<in> set ((fst cur, max (snd cur) (snd x)) # xs). fst p \<le> snd p"
      by simp
    from "2.IH"(1) [OF True this] True show ?thesis by simp
  next
    case False
    from x r have "\<forall>p \<in> set (x # xs). fst p \<le> snd p" by simp
    from "2.IH"(2) [OF False this] False c show ?thesis by simp
  qed
qed

lemma merge_from_separated:
  "sorted_wrt (\<lambda>a b. snd a < fst b) (cur # xs) \<Longrightarrow> merge_from cur xs = cur # xs"
proof (induction cur xs rule: merge_from.induct)
  case (1 cur)
  show ?case by simp
next
  case (2 cur x xs)
  from "2.prems" have lt: "snd cur < fst x" and rest: "sorted_wrt (\<lambda>a b. snd a < fst b) (x # xs)"
    by simp_all
  from lt have "\<not> fst x \<le> snd cur" by simp
  with "2.IH"(2) rest show ?case by simp
qed


lemma merge_overlapping_slots_Cons_sorted:
  assumes "sorted (map fst (x # xs))"
  shows "merge_overlapping_slots (x # xs) = merge_from x xs"
  using assms by (simp add: merge_overlapping_slots_sorted_input sort_key_id_if_sorted del: sort_key_simps)

lemma merge_overlapping_slots_sort:
  "merge_overlapping_slots (sort_key fst xs) = merge_overlapping_slots xs"
  by (simp add: merge_overlapping_slots_sorted_input sort_key_id_if_sorted)

lemma merge_overlapping_slots_gaps:
  "sorted_wrt (\<lambda>a b. snd a < fst b) (merge_overlapping_slots xs)"
proof (cases "sort_key fst xs")
  case Nil
  then show ?thesis by (simp add: merge_overlapping_slots_sorted_input)
next
  case (Cons y ys)
  have "sorted (map fst (sort_key fst xs))" by (rule sorted_sort_key)
  with Cons have "sorted (map fst (y # ys))" by simp
  then have "sorted_wrt (\<lambda>a b. snd a < fst b) (merge_from y ys)" by (rule merge_from_gaps)
  with Cons show ?thesis by (simp add: merge_overlapping_slots_sorted_input)
qed

lemma merge_overlapping_slots_sorted_starts:
  "sorted (map fst (merge_overlapping_slots xs))"
proof (cases "sort_key fst xs")
  case Nil
  then show ?thesis by (simp add: merge_overlapping_slots_sorted_input)
next
  case (Cons y ys)
  have "sorted (map fst (sort_key fst xs))" by (rule sorted_sort_key)
  with Cons have "sorted (map fst (y # ys))" by simp
  then have "sorted (map fst (merge_from y ys))" by (rule merge_from_sorted_starts)
  with Cons show ?thesis by (simp add: merge_overlapping_slots_sorted_input)
qed

lemma merge_overlapping_slots_proper:
  assumes "\<forall>p \<in> set xs. fst p \<le> snd p"
  shows "\<forall>p \<in> set (merge_overlapping_slots xs). fst p \<le> snd p"
proof (cases "sort_key fst xs")
  case Nil
  then show ?thesis by (simp add: merge_overlapping_slots_sorted_input)
next
  case (Cons y ys)
  have "set (y # ys) = set xs" using Cons set_sort [of fst xs] by simp
  with assms have "\<forall>p \<in> set (y # ys). fst p \<le> snd p" by blast
  then have "\<forall>p \<in> set (merge_from y ys). fst p \<le> snd p" by (rule merge_from_proper)
  with Cons show ?thesis by (simp add: merge_overlapping_slots_sorted_input)
qed

lemma strict_starts:
  assumes "sorted_wrt (\<lambda>a b. snd a < fst b) ys" and "\<forall>p \<in> set ys. fst p \<le> snd p"
  shows "sorted_wrt (\<lambda>a b. fst a < fst b) (ys :: ('a::linorder \<times> 'a) list)"
  using assms
proof (induction ys)
  case Nil
  show ?case by simp
next
  case (Cons y ys)
  from Cons.prems have a: "\<forall>b \<in> set ys. snd y < fst b" and y: "fst y \<le> snd y"
    and r: "sorted_wrt (\<lambda>a b. snd a < fst b) ys" "\<forall>p \<in> set ys. fst p \<le> snd p" by simp_all
  from a y have "\<forall>b \<in> set ys. fst y < fst b" by (meson le_less_trans)
  with Cons.IH [OF r] show ?case by simp
qed

text \<open>
  Claim C4. The merge of the empty list is empty and a single slot is returned as it is.
  The slots are first sorted by start; on a list sorted by start, a next slot whose start
  is at most the end of the running slot (also when the two are equal) is absorbed, the
  end becoming the maximum of the two ends, and any other next slot closes the running
  slot. In the result the end of every slot is strictly less than the start of every
  later slot. When every given slot is an interval, its start not after its end, the
  starts of the result are strictly ascending.
\<close>

theorem merge_overlapping_slots_ordered:
  fixes xs :: "('a::linorder \<times> 'a) list"
  shows "merge_overlapping_slots ([] :: ('a \<times> 'a) list) = []
    \<and> merge_overlapping_slots [cur] = [cur]
    \<and> merge_overlapping_slots xs = merge_overlapping_slots (sort_key fst xs)
    \<and> (sorted (map fst (cur # nxt # rest)) \<longrightarrow>
         merge_overlapping_slots (cur # nxt # rest) =
           (if fst nxt \<le> snd cur
            then merge_overlapping_slots ((fst cur, max (snd cur) (snd nxt)) # rest)
            else cur # merge_overlapping_slots (nxt # rest)))
    \<and> sorted_wrt (\<lambda>a b. snd a < fst b) (merge_overlapping_slots xs)
    \<and> ((\<forall>p \<in> set xs. fst p \<le> snd p) \<longrightarrow>
         sorted_wrt (\<lambda>a b. fst a < fst b) (merge_overlapping_slots xs))"
proof (intro conjI impI)
  show "merge_overlapping_slots ([] :: ('a \<times> 'a) list) = []"
    by (simp add: merge_overlapping_slots_def)
  show "merge_overlapping_slots [cur] = [cur]"
    by (simp add: merge_overlapping_slots_def)
  show "merge_overlapping_slots xs = merge_overlapping_slots (sort_key fst xs)"
    by (simp add: merge_overlapping_slots_sort)
  show "sorted_wrt (\<lambda>a b. snd a < fst b) (merge_overlapping_slots xs)"
    by (rule merge_overlapping_slots_gaps)
next
  assume "\<forall>p \<in> set xs. fst p \<le> snd p"
  then have "\<forall>p \<in> set (merge_overlapping_slots xs). fst p \<le> snd p"
    by (rule merge_overlapping_slots_proper)
  with merge_overlapping_slots_gaps [of xs]
  show "sorted_wrt (\<lambda>a b. fst a < fst b) (merge_overlapping_slots xs)"
    by (rule strict_starts)
next
  assume s: "sorted (map fst (cur # nxt # rest))"
  then have s1: "sorted (map fst ((fst cur, max (snd cur) (snd nxt)) # rest))"
    and s2: "sorted (map fst (nxt # rest))" by auto
  show "merge_overlapping_slots (cur # nxt # rest) =
           (if fst nxt \<le> snd cur
            then merge_overlapping_slots ((fst cur, max (snd cur) (snd nxt)) # rest)
            else cur # merge_overlapping_slots (nxt # rest))"
    unfolding merge_overlapping_slots_Cons_sorted [OF s]
      merge_overlapping_slots_Cons_sorted [OF s1] merge_overlapping_slots_Cons_sorted [OF s2]
    by simp
qed

theorem merge_overlapping_slots_ordered_witness:
  "sorted (map fst [(540::int, 600::int), (600, 660), (700, 720)])
   \<and> list_all (\<lambda>p. fst p \<le> snd p) [(700::int, 720::int), (540, 600), (600, 660)]
   \<and> merge_overlapping_slots [(540::int, 600::int), (600, 660), (700, 720)] =
       merge_overlapping_slots [(540, 660), (700, 720)]
   \<and> sorted_wrt (\<lambda>a b. fst a < fst b)
       (merge_overlapping_slots [(700::int, 720::int), (540, 600), (600, 660)])"
proof -
  note t = merge_overlapping_slots_ordered
    [of "(540::int, 600::int)" "[(700::int, 720::int), (540, 600), (600, 660)]"
        "(600::int, 660::int)" "[(700::int, 720::int)]"]
  have h1: "sorted (map fst [(540::int, 600::int), (600, 660), (700, 720)])" by simp
  have h2: "\<forall>p \<in> set [(700::int, 720::int), (540, 600), (600, 660)]. fst p \<le> snd p" by simp
  from t h1 have "merge_overlapping_slots [(540::int, 600::int), (600, 660), (700, 720)] =
      (if fst (600::int, 660::int) \<le> snd (540::int, 600::int)
       then merge_overlapping_slots
              [(fst (540::int, 600::int), max (snd (540::int, 600::int)) (snd (600::int, 660::int))),
               (700, 720)]
       else (540, 600) # merge_overlapping_slots [(600, 660), (700, 720)])"
    by blast
  then have c1: "merge_overlapping_slots [(540::int, 600::int), (600, 660), (700, 720)] =
      merge_overlapping_slots [(540, 660), (700, 720)]" by simp
  from t h2 have c2: "sorted_wrt (\<lambda>a b. fst a < fst b)
      (merge_overlapping_slots [(700::int, 720::int), (540, 600), (600, 660)])" by blast
  have h3: "list_all (\<lambda>p. fst p \<le> snd p) [(700::int, 720::int), (540, 600), (600, 660)]"
    by simp
  from h1 h3 c1 c2 show ?thesis by blast
qed

text \<open>
  Claim C8. Merging is idempotent: merging a merged list returns it unchanged.
\<close>

theorem merge_overlapping_slots_idempotent:
  "merge_overlapping_slots (merge_overlapping_slots x) = merge_overlapping_slots x"
proof (cases "merge_overlapping_slots x")
  case Nil
  then show ?thesis by (simp add: merge_overlapping_slots_def)
next
  case (Cons y ys)
  from merge_overlapping_slots_sorted_starts [of x] Cons
  have "sorted (map fst (y # ys))" by simp
  then have "merge_overlapping_slots (y # ys) = merge_from y ys"
    by (rule merge_overlapping_slots_Cons_sorted)
  moreover from merge_overlapping_slots_gaps [of x] Cons
  have "sorted_wrt (\<lambda>a b. snd a < fst b) (y # ys)" by simp
  then have "merge_from y ys = y # ys" by (rule merge_from_separated)
  ultimately show ?thesis using Cons by simp
qed

section \<open>Time conversion\<close>

lemma of_char_digit_char: "d < 10 \<Longrightarrow> (of_char (digit_char d) :: nat) = 48 + d"
  by (simp add: digit_char_def)

lemma is_digit_digit_char: "d < 10 \<Longrightarrow> is_digit (digit_char d)"
  by (simp add: is_digit_def of_char_digit_char)

lemma digit_val_digit_char: "d < 10 \<Longrightarrow> digit_val (digit_char d) = d"
  by (simp add: digit_val_def of_char_digit_char)

lemma digit_char_digit_val: "is_digit c \<Longrightarrow> digit_char (digit_val c) = c"
  by (simp add: is_digit_def digit_val_def digit_char_def)

lemma digit_val_less: "is_digit c \<Longrightarrow> digit_val c < 10"
  by (auto simp add: is_digit_def digit_val_def)

lemma digit_char_le_iff: "x < 10 \<Longrightarrow> y < 10 \<Longrightarrow> (digit_char x \<le> digit_char y) = (x \<le> y)"
  by (simp add: less_eq_char_def of_char_digit_char)

lemma digit_char_less_iff: "x < 10 \<Longrightarrow> y < 10 \<Longrightarrow> (digit_char x < digit_char y) = (x < y)"
  by (simp add: less_char_def of_char_digit_char)

lemma digit_char_eq_iff: "x < 10 \<Longrightarrow> y < 10 \<Longrightarrow> (digit_char x = digit_char y) = (x = y)"
  by (metis digit_val_digit_char)

lemma is_digit_not_special:
  assumes "is_digit c"
  shows "\<not> py_isspace c" "c \<noteq> CHR ''-''" "c \<noteq> CHR ''+''" "c \<noteq> CHR '':''" "c \<noteq> CHR ''_''"
  using assms by (auto simp add: is_digit_def py_isspace_def Let_def)

lemma str_nat_digits: "\<forall>c \<in> set (str_nat n). is_digit c"
proof (induction n rule: str_nat.induct)
  case (1 n)
  show ?case
  proof (cases "n < 10")
    case True
    then show ?thesis by (simp add: str_nat.simps [of n] is_digit_digit_char)
  next
    case False
    with 1 show ?thesis by (simp add: str_nat.simps [of n] is_digit_digit_char)
  qed
qed

lemma str_nat_not_Nil: "str_nat n \<noteq> []"
  by (simp add: str_nat.simps [of n])

lemma str_nat_value: "foldl (\<lambda>a c. 10 * a + digit_val c) 0 (str_nat n) = n"
proof (induction n rule: str_nat.induct)
  case (1 n)
  show ?case
  proof (cases "n < 10")
    case True
    then show ?thesis by (simp add: str_nat.simps [of n] digit_val_digit_char)
  next
    case False
    with 1 show ?thesis by (simp add: str_nat.simps [of n] digit_val_digit_char)
  qed
qed

lemma py_digits_all_digits:
  "\<forall>c \<in> set ds. is_digit c \<Longrightarrow> py_digits acc ds = Some (foldl (\<lambda>a c. 10 * a + digit_val c) acc ds)"
  by (induction acc ds rule: py_digits.induct) simp_all

lemma py_nat_all_digits:
  assumes "\<forall>c \<in> set ds. is_digit c" and "ds \<noteq> []"
  shows "py_nat ds = Some (foldl (\<lambda>a c. 10 * a + digit_val c) 0 ds)"
proof (cases ds)
  case Nil
  with assms show ?thesis by simp
next
  case (Cons c cs)
  with assms have "is_digit c" "\<forall>c \<in> set cs. is_digit c" by simp_all
  with Cons show ?thesis by (simp add: py_nat_def py_digits_all_digits)
qed

lemma py_nat_str_nat: "py_nat (str_nat n) = Some n"
  by (simp add: py_nat_all_digits str_nat_digits str_nat_not_Nil str_nat_value)

lemma py_nat_zero_str_nat: "py_nat (CHR ''0'' # str_nat n) = Some n"
proof -
  have "is_digit CHR ''0''" by (simp add: is_digit_def)
  moreover have "digit_val CHR ''0'' = 0" by (simp add: digit_val_def)
  ultimately show ?thesis
    by (simp add: py_nat_def py_digits_all_digits str_nat_digits str_nat_value)
qed

lemma strip_id:
  assumes "s \<noteq> []" and "\<not> py_isspace (hd s)" and "\<not> py_isspace (last s)"
  shows "strip s = s"
proof -
  from assms have "dropWhile py_isspace s = s" by (cases s) simp_all
  moreover from assms have "dropWhile py_isspace (rev s) = rev s"
    by (cases "rev s") (simp_all add: hd_rev)
  ultimately show ?thesis by (simp add: strip_def)
qed

lemma last_str_nat_digit: "is_digit (last (str_nat n))"
  using str_nat_digits [of n] str_nat_not_Nil [of n] last_in_set by blast

lemma hd_str_nat_digit: "is_digit (hd (str_nat n))"
  using str_nat_digits [of n] str_nat_not_Nil [of n] hd_in_set by blast

lemma py_int_format_02d: "py_int (format_02d n) = Some n"
proof -
  have sp: "\<not> py_isspace CHR ''-''" "\<not> py_isspace CHR ''0''"
    by (simp_all add: py_isspace_def)
  consider "n < 0" | "0 \<le> n" "n < 10" | "10 \<le> n" by linarith
  then show ?thesis
  proof cases
    case 1
    have "strip (CHR ''-'' # str_nat (nat (- n))) = CHR ''-'' # str_nat (nat (- n))"
      using last_str_nat_digit [of "nat (- n)"] str_nat_not_Nil [of "nat (- n)"] sp
      by (intro strip_id) (simp_all add: is_digit_not_special)
    with 1 show ?thesis by (simp add: py_int_def format_02d_def py_nat_str_nat)
  next
    case 2
    have "strip (CHR ''0'' # str_nat (nat n)) = CHR ''0'' # str_nat (nat n)"
      using last_str_nat_digit [of "nat n"] str_nat_not_Nil [of "nat n"] sp
      by (intro strip_id) (simp_all add: is_digit_not_special)
    with 2 show ?thesis by (simp add: py_int_def format_02d_def py_nat_zero_str_nat)
  next
    case 3
    have s: "strip (str_nat (nat n)) = str_nat (nat n)"
      using last_str_nat_digit [of "nat n"] hd_str_nat_digit [of "nat n"] str_nat_not_Nil [of "nat n"]
      by (intro strip_id) (simp_all add: is_digit_not_special)
    obtain c cs where c: "str_nat (nat n) = c # cs" using str_nat_not_Nil [of "nat n"]
      by (cases "str_nat (nat n)") auto
    with hd_str_nat_digit [of "nat n"] have "is_digit c" by simp
    then have "c \<noteq> CHR ''-''" "c \<noteq> CHR ''+''" by (simp_all add: is_digit_not_special)
    with 3 s c py_nat_str_nat [of "nat n"] show ?thesis
      by (simp add: py_int_def format_02d_def)
  qed
qed

lemma split_colon_no_colon: "CHR '':'' \<notin> set s \<Longrightarrow> split_colon s = [s]"
  by (induction s) (auto simp add: Let_def)

lemma split_colon_append: "CHR '':'' \<notin> set a \<Longrightarrow> split_colon (a @ CHR '':'' # b) = a # split_colon b"
  by (induction a) (auto simp add: Let_def)

lemma format_02d_no_colon: "CHR '':'' \<notin> set (format_02d n)"
  using str_nat_digits is_digit_not_special(4) by (auto simp add: format_02d_def)

lemma time_to_minutes_minutes_to_time: "time_to_minutes (minutes_to_time m) = Inr m"
proof -
  have "split_colon (minutes_to_time m) = [format_02d (m div 60), format_02d (m mod 60)]"
    by (simp add: minutes_to_time_def Let_def split_colon_append split_colon_no_colon
        format_02d_no_colon)
  then show ?thesis by (simp add: time_to_minutes_def py_int_format_02d)
qed

lemma format_02d_two_digits:
  assumes "a < 10" and "b < 10"
  shows "format_02d (int (10 * a + b)) = [digit_char a, digit_char b]"
proof (cases "a = 0")
  case True
  have "CHR ''0'' = digit_char 0"
    by (rule of_char_eqI [where ?'a = nat]) (simp add: digit_char_def)
  with True assms show ?thesis by (simp add: format_02d_def str_nat.simps [of b])
next
  case False
  with assms have d: "(10 * a + b) div 10 = a" "(10 * a + b) mod 10 = b" by simp_all
  from False have "\<not> 10 * a + b < 10" by simp
  then have "str_nat (10 * a + b) = str_nat a @ [digit_char b]"
    using d by (simp add: str_nat.simps [of "10 * a + b"])
  with assms have s: "str_nat (10 * a + b) = [digit_char a, digit_char b]"
    by (simp add: str_nat.simps [of a])
  have n: "nat (int (10 * a + b)) = 10 * a + b" by simp
  from False have c: "\<not> int (10 * a + b) < 0" "\<not> int (10 * a + b) < 10" by linarith+
  show ?thesis by (simp only: format_02d_def n c if_False s)
qed

lemma minutes_to_time_four_digits:
  assumes "a < 10" and "b < 10" and "c < 6" and "d < 10"
  shows "minutes_to_time (int (600 * a + 60 * b + 10 * c + d))
           = [digit_char a, digit_char b, CHR '':'', digit_char c, digit_char d]"
proof -
  let ?m = "int (600 * a + 60 * b + 10 * c + d)"
  let ?x = "10 * c + d" and ?y = "10 * a + b"
  have e: "600 * a + 60 * b + 10 * c + d = ?x + 60 * ?y" by simp
  from assms have l: "?x < 60" by linarith
  have dv: "(?x + 60 * ?y) div 60 = ?y + ?x div 60" by (rule div_mult_self2) simp
  have md: "(?x + 60 * ?y) mod 60 = ?x mod 60" by (rule mod_mult_self2)
  have "(?x + 60 * ?y) div 60 = ?y" unfolding dv using l by simp
  moreover have "(?x + 60 * ?y) mod 60 = ?x" unfolding md using l by simp
  ultimately have "(600 * a + 60 * b + 10 * c + d) div 60 = 10 * a + b"
    and "(600 * a + 60 * b + 10 * c + d) mod 60 = 10 * c + d"
    unfolding e by blast+
  then have "int ((600 * a + 60 * b + 10 * c + d) div 60) = int (10 * a + b)"
    and "int ((600 * a + 60 * b + 10 * c + d) mod 60) = int (10 * c + d)" by simp_all
  then have "?m div 60 = int (10 * a + b)" and "?m mod 60 = int (10 * c + d)"
    by (simp_all only: zdiv_int zmod_int of_nat_numeral)
  moreover from assms have "c < 10" by simp
  ultimately show ?thesis using assms
    by (simp only: minutes_to_time_def Let_def format_02d_two_digits) simp
qed

lemma four_digits_le_iff:
  assumes "a < 10" "b < 10" "c < 6" "d < 10" "a' < 10" "b' < 10" "c' < 6" "d' < 10"
  shows "([digit_char a, digit_char b, CHR '':'', digit_char c, digit_char d]
            \<le> [digit_char a', digit_char b', CHR '':'', digit_char c', digit_char d'])
         = (600 * a + 60 * b + 10 * c + d \<le> 600 * a' + 60 * b' + 10 * c' + d')"
proof -
  from assms have "c < 10" "c' < 10" by simp_all
  with assms show ?thesis
    by (simp add: digit_char_less_iff digit_char_eq_iff digit_char_le_iff) arith
qed

lemma minutes_have_four_digits:
  assumes "0 \<le> m" and "m < 6000"
  obtains a b c d where "a < 10" "b < 10" "c < 6" "d < 10"
    "m = int (600 * a + 60 * b + 10 * c + d)"
proof -
  define n where "n = nat m"
  define h where "h = n div 60"
  define r where "r = n mod 60"
  define a where "a = h div 10"
  define b where "b = h mod 10"
  define c where "c = r div 10"
  define d where "d = r mod 10"
  from assms have n: "n < 6000" and m: "m = int n" by (simp_all add: n_def)
  from n have h: "h < 100" by (simp add: h_def)
  have r: "r < 60" by (simp add: r_def)
  from h have a: "a < 10" by (simp add: a_def)
  have b: "b < 10" by (simp add: b_def)
  from r have c: "c < 6" by (simp add: c_def)
  have d: "d < 10" by (simp add: d_def)
  have "n = 60 * h + r" by (simp add: h_def r_def)
  moreover have "h = 10 * a + b" by (simp add: a_def b_def)
  moreover have "r = 10 * c + d" by (simp add: c_def d_def)
  ultimately have "n = 600 * a + 60 * b + 10 * c + d" by simp
  with m have "m = int (600 * a + 60 * b + 10 * c + d)" by simp
  with a b c d show ?thesis using that by blast
qed

lemma minutes_to_time_le_iff:
  assumes "0 \<le> m" "m < 6000" "0 \<le> n" "n < 6000"
  shows "(minutes_to_time m \<le> minutes_to_time n) = (m \<le> n)"
proof -
  from assms obtain a b c d where m: "a < 10" "b < 10" "c < 6" "d < 10"
    "m = int (600 * a + 60 * b + 10 * c + d)" by (elim minutes_have_four_digits)
  from assms obtain a' b' c' d' where n: "a' < 10" "b' < 10" "c' < 6" "d' < 10"
    "n = int (600 * a' + 60 * b' + 10 * c' + d')" by (elim minutes_have_four_digits)
  show ?thesis
    unfolding m(5) n(5) minutes_to_time_four_digits [OF m(1-4)]
      minutes_to_time_four_digits [OF n(1-4)] four_digits_le_iff [OF m(1-4) n(1-4)]
    by (simp only: of_nat_le_iff)
qed

lemma wf_time_minutes:
  assumes "wf_time t"
  obtains m where "0 \<le> m" "m < 1440" "t = minutes_to_time m"
proof -
  from assms obtain h1 h2 m1 m2 where t: "t = [h1, h2, CHR '':'', m1, m2]"
    and d: "is_digit h1" "is_digit h2" "is_digit m1" "is_digit m2"
    and r: "10 * digit_val h1 + digit_val h2 < 24" "digit_val m1 < 6"
    by (auto simp add: wf_time_def split: list.splits)
  let ?m = "int (600 * digit_val h1 + 60 * digit_val h2 + 10 * digit_val m1 + digit_val m2)"
  from d have b: "digit_val h1 < 10" "digit_val h2 < 10" "digit_val m2 < 10"
    by (simp_all add: digit_val_less)
  from minutes_to_time_four_digits [OF b(1) b(2) r(2) b(3)] d t
  have "t = minutes_to_time ?m" by (simp add: digit_char_digit_val)
  moreover from r b have "?m < 1440" by linarith
  moreover have "0 \<le> ?m" by simp
  ultimately show ?thesis using that by blast
qed

lemma wf_time_minutes_to_time:
  assumes "0 \<le> m" and "m < 1440"
  shows "wf_time (minutes_to_time m)"
proof -
  from assms obtain a b c d where m: "a < 10" "b < 10" "c < 6" "d < 10"
    "m = int (600 * a + 60 * b + 10 * c + d)" by (elim minutes_have_four_digits) simp_all
  from m assms have "10 * a + b < 24" by linarith
  with m show ?thesis
    unfolding m(5) minutes_to_time_four_digits [OF m(1-4)]
    by (simp add: wf_time_def is_digit_digit_char digit_val_digit_char)
qed

section \<open>Busy slots: strings against minutes\<close>

lemma fold_intervals_merge_from: "fold_intervals cur xs = merge_from cur xs"
  by (induction cur xs rule: fold_intervals.induct) simp_all

lemma mergeOverlapping_eq: "mergeOverlapping xs = merge_overlapping_slots xs"
  by (simp add: mergeOverlapping_def merge_overlapping_slots_sorted_input
      fold_intervals_merge_from del: sort_key_simps split: list.splits)

lemma parse_time_range_slot_time: "parse_time_range (fst (slot_time p)) (snd (slot_time p)) = Inr p"
  by (simp add: parse_time_range_def slot_time_def time_to_minutes_minutes_to_time)

lemma parse_slots_slot_time: "parse_slots (map slot_time ms) = Inr ms"
proof (induction ms)
  case Nil
  show ?case by simp
next
  case (Cons p ms)
  obtain a b where ab: "slot_time p = (a, b)" by (cases "slot_time p")
  with parse_time_range_slot_time [of p] have "parse_time_range a b = Inr p" by simp
  with Cons ab show ?case by simp
qed

lemma wf_slots_minutes_ex:
  "list_all wf_slot raw \<Longrightarrow> \<exists>ms. raw = map slot_time ms \<and> list_all in_day ms"
proof (induction raw)
  case Nil
  show ?case by simp
next
  case (Cons p raw)
  from Cons.prems have pp: "wf_slot p" and r: "list_all wf_slot raw" by simp_all
  from pp have p: "wf_time (fst p)" "wf_time (snd p)" by (simp_all add: wf_slot_def)
  from Cons.IH [OF r] obtain ms where ms: "raw = map slot_time ms" "list_all in_day ms"
    by blast
  from p(1) obtain a where a: "0 \<le> a" "a < 1440" "fst p = minutes_to_time a"
    by (rule wf_time_minutes)
  from p(2) obtain b where b: "0 \<le> b" "b < 1440" "snd p = minutes_to_time b"
    by (rule wf_time_minutes)
  from a b have "p = slot_time (a, b)" by (cases p) (simp add: slot_time_def)
  with ms have e: "p # raw = map slot_time ((a, b) # ms)" by simp
  from a b ms have "list_all in_day ((a, b) # ms)" by (simp add: in_day_def)
  with e show ?case by (intro exI [of _ "(a, b) # ms"] conjI)
qed

lemma wf_slots_minutes:
  assumes "list_all wf_slot raw"
  obtains ms where "raw = map slot_time ms" "list_all in_day ms"
  using wf_slots_minutes_ex [OF assms] by blast

lemma slot_time_le_iff:
  assumes "in_day p" and "in_day q"
  shows "(fst (slot_time p) \<le> fst (slot_time q)) = (fst p \<le> fst q)"
    and "(fst (slot_time q) \<le> snd (slot_time p)) = (fst q \<le> snd p)"
    and "(snd (slot_time p) \<le> snd (slot_time q)) = (snd p \<le> snd q)"
  using assms by (simp_all add: slot_time_def in_day_def minutes_to_time_le_iff)

lemma insort_key_slot_time:
  assumes "in_day p" and "list_all in_day xs"
  shows "insort_key fst (slot_time p) (map slot_time xs) = map slot_time (insort_key fst p xs)"
  using assms(2)
proof (induction xs)
  case Nil
  show ?case by simp
next
  case (Cons x xs)
  from Cons.prems have x: "in_day x" and r: "list_all in_day xs" by simp_all
  from slot_time_le_iff(1) [OF assms(1) x] Cons.IH [OF r] show ?case by simp
qed

lemma list_all_insort_key: "list_all P (insort_key f x xs) = (P x \<and> list_all P xs)"
  by (induction xs) auto

lemma list_all_sort_key: "list_all P (sort_key f xs) = list_all P xs"
  by (induction xs) (simp_all add: list_all_insort_key)

lemma sort_key_slot_time:
  assumes "list_all in_day xs"
  shows "sort_key fst (map slot_time xs) = map slot_time (sort_key fst xs)"
  using assms
proof (induction xs)
  case Nil
  show ?case by simp
next
  case (Cons x xs)
  from Cons.prems have x: "in_day x" and r: "list_all in_day xs" by simp_all
  from r have "list_all in_day (sort_key fst xs)" by (simp add: list_all_sort_key)
  from insort_key_slot_time [OF x this] Cons.IH [OF r] show ?case by simp
qed

lemma merge_from_slot_time:
  assumes "in_day cur" and "list_all in_day xs"
  shows "merge_from (slot_time cur) (map slot_time xs) = map slot_time (merge_from cur xs)"
  using assms
proof (induction cur xs rule: merge_from.induct)
  case (1 cur)
  show ?case by simp
next
  case (2 cur x xs)
  from "2.prems" have c: "in_day cur" and x: "in_day x" and r: "list_all in_day xs" by simp_all
  note le = slot_time_le_iff(2) [OF c x]
  show ?case
  proof (cases "fst x \<le> snd cur")
    case True
    let ?c = "(fst cur, max (snd cur) (snd x))"
    from c x have c': "in_day ?c" by (simp add: in_day_def max_def)
    have "max (snd (slot_time cur)) (snd (slot_time x)) = snd (slot_time ?c)"
      using slot_time_le_iff(3) [OF c x] by (simp add: max_def slot_time_def)
    then have "(fst (slot_time cur), max (snd (slot_time cur)) (snd (slot_time x))) = slot_time ?c"
      by (simp add: slot_time_def)
    with True le "2.IH"(1) [OF True c' r] show ?thesis by simp
  next
    case False
    with le "2.IH"(2) [OF False x r] show ?thesis by simp
  qed
qed

lemma merge_overlapping_slots_slot_time:
  assumes "list_all in_day ms"
  shows "merge_overlapping_slots (map slot_time ms) = map slot_time (merge_overlapping_slots ms)"
proof (cases "sort_key fst ms")
  case Nil
  then have "ms = []" by (metis length_sort length_0_conv)
  then show ?thesis by (simp add: merge_overlapping_slots_def)
next
  case (Cons x xs)
  from assms have "list_all in_day (sort_key fst ms)" by (simp add: list_all_sort_key)
  with Cons have x: "in_day x" and r: "list_all in_day xs" by simp_all
  from Cons sort_key_slot_time [OF assms]
  have "sort_key fst (map slot_time ms) = slot_time x # map slot_time xs" by simp
  with Cons merge_from_slot_time [OF x r] show ?thesis
    by (simp add: merge_overlapping_slots_sorted_input)
qed

text \<open>
  Claim C10. The busy slots of a date are the merge of the raw pairs of time strings
  under the order of strings; no conversion to minutes takes part. When every raw time
  string of the date is a well-formed zero-padded \<^verbatim>\<open>HH:MM\<close>, the reference procedure,
  which converts to minutes, merges the numbers and converts back, succeeds with exactly
  the same list.
\<close>

theorem get_busy_slots_refines_reference:
  assumes "map_of (timeslots s) date = Some raw" and "list_all wf_slot raw"
  shows "get_busy_slots s date = merge_overlapping_slots raw
    \<and> reference_busy_slots raw = Inr (get_busy_slots s date)"
proof -
  from assms(2) obtain ms where ms: "raw = map slot_time ms" "list_all in_day ms"
    by (rule wf_slots_minutes)
  from assms(1) have b: "get_busy_slots s date = merge_overlapping_slots raw"
    by (simp add: get_busy_slots_def)
  have "reference_busy_slots raw = Inr (map slot_time (merge_overlapping_slots ms))"
    by (simp add: reference_busy_slots_def ms(1) parse_slots_slot_time mergeOverlapping_eq)
  also have "map slot_time (merge_overlapping_slots ms) = merge_overlapping_slots raw"
    by (simp add: ms(1) merge_overlapping_slots_slot_time [OF ms(2)])
  finally show ?thesis using b by simp
qed

theorem get_busy_slots_refines_reference_witness:
  "reference_busy_slots [(''13:30'', ''14:00''), (''10:00'', ''11:15''), (''11:15'', ''12:00'')]
     = Inr (get_busy_slots (Scheduler overlapping_data) ''2024-10-10'')
   \<and> get_busy_slots (Scheduler overlapping_data) ''2024-10-10''
     = [(''10:00'', ''12:00''), (''13:30'', ''14:00'')]"
proof -
  have l: "map_of (timeslots (Scheduler overlapping_data)) ''2024-10-10''
      = Some [(''13:30'', ''14:00''), (''10:00'', ''11:15''), (''11:15'', ''12:00'')]"
    by code_simp
  have w: "list_all wf_slot [(''13:30'', ''14:00''), (''10:00'', ''11:15''), (''11:15'', ''12:00'')]"
    by code_simp
  have v: "get_busy_slots (Scheduler overlapping_data) ''2024-10-10''
     = [(''10:00'', ''12:00''), (''13:30'', ''14:00'')]"
    by code_simp
  from get_busy_slots_refines_reference [OF l w] v show ?thesis by simp
qed

section \<open>The calendar index and unknown dates\<close>

lemma map_of_days_foldl:
  "map_of (foldl (\<lambda>m day. AList.update (day_date day) day m) al ds) date = None
     \<longleftrightarrow> map_of al date = None \<and> date \<notin> day_date ` set ds"
  by (induction ds arbitrary: al) (auto simp add: update_conv')

lemma map_of_empty_slots_foldl:
  "map_of (foldl (\<lambda>tbd day. AList.update (day_date day) [] tbd) al ds) date = None
     \<longleftrightarrow> map_of al date = None \<and> date \<notin> day_date ` set ds"
  by (induction ds arbitrary: al) (auto simp add: update_conv')

lemma map_of_file_slots_foldl:
  "map_of (foldl (\<lambda>tbd ts.
            (case find (\<lambda>day. day_id day = timeslot_day_id ts) ds of
               None \<Rightarrow> tbd
             | Some day \<Rightarrow>
                 if day_date day \<noteq> []
                 then AList.map_entry (day_date day)
                        (\<lambda>l. l @ [(timeslot_start ts, timeslot_end ts)]) tbd
                 else tbd)) al tss) date = None
     \<longleftrightarrow> map_of al date = None"
  by (induction tss arbitrary: al) (auto simp add: map_of_map_entry split: option.splits)

lemma unknown_date_days:
  "map_of (days (Scheduler d)) date = None \<longleftrightarrow> date \<notin> day_date ` set (payload_days d)"
  by (simp add: Scheduler_def map_of_days_foldl)

lemma unknown_date_timeslots:
  "map_of (timeslots (Scheduler d)) date = None \<longleftrightarrow> date \<notin> day_date ` set (payload_days d)"
  by (simp add: Scheduler_def organize_timeslots_def Let_def map_of_file_slots_foldl
      map_of_empty_slots_foldl)

text \<open>
  Claim C9. For a date that no day of the payload carries, the three queries succeed:
  no busy slots, no free slots, and not available, whatever the requested times are
  (they are not even parsed).
\<close>

theorem unknown_date_queries:
  assumes "date \<notin> day_date ` set (payload_days d)"
  shows "get_busy_slots (Scheduler d) date = []
    \<and> get_free_slots (Scheduler d) date = Inr []
    \<and> is_available (Scheduler d) date start end' = Inr False"
proof -
  from assms have "map_of (days (Scheduler d)) date = None"
    and "map_of (timeslots (Scheduler d)) date = None"
    by (simp_all add: unknown_date_days unknown_date_timeslots)
  then show ?thesis by (simp add: get_busy_slots_def get_free_slots_def is_available_def)
qed

theorem unknown_date_queries_witness:
  "get_busy_slots (Scheduler test_data) ''2099-01-01'' = []
    \<and> get_free_slots (Scheduler test_data) ''2099-01-01'' = Inr []
    \<and> is_available (Scheduler test_data) ''2099-01-01'' ''10:00'' ''not a time'' = Inr False"
proof -
  have "''2099-01-01'' \<notin> day_date ` set (payload_days test_data)"
    by (simp add: test_data_def)
  then show ?thesis by (rule unknown_date_queries)
qed

section \<open>Free slots and the end of work\<close>

text \<open>
  Claim C1. On a day from 09:00 to 18:00 (540 to 1080 minutes) whose one busy slot runs
  from 19:00 to 20:00, the loop emits the gap from the cursor to the start of the busy
  slot without comparing that start with the end of work: the free slot returned ends
  at 19:00, that is at minute 1140, after the end of work.
\<close>

theorem free_slot_past_work_end:
  "parse_time_range ''09:00'' ''18:00'' = Inr (540, 1080)
   \<and> get_busy_slots (Scheduler after_hours_data) ''2024-10-10'' = [(''19:00'', ''20:00'')]
   \<and> get_free_slots (Scheduler after_hours_data) ''2024-10-10'' = Inr [(''09:00'', ''19:00'')]
   \<and> time_to_minutes ''19:00'' = Inr 1140"
  by code_simp

text \<open>
  Claim C3. On the same day, the free slot that \<^verbatim>\<open>get_free_slots\<close> returns is refused by
  \<^verbatim>\<open>is_available\<close>, which does compare the end of the request with the end of work.
\<close>

theorem free_slot_not_available:
  "get_free_slots (Scheduler after_hours_data) ''2024-10-10'' = Inr [(''09:00'', ''19:00'')]
   \<and> is_available (Scheduler after_hours_data) ''2024-10-10'' ''09:00'' ''19:00'' = Inr False"
  by code_simp

section \<open>Availability\<close>

lemma overlap_loop_minutes:
  "parse_slots busy = Inr bm \<Longrightarrow>
     overlap_loop a b busy = Inr (list_all (\<lambda>(bs, be). b \<le> bs \<or> be \<le> a) bm)"
proof (induction busy arbitrary: bm)
  case Nil
  then show ?case by simp
next
  case (Cons p busy)
  obtain s e where p: "p = (s, e)" by (cases p)
  from Cons.prems p obtain q qs where q: "parse_time_range s e = Inr q"
    and qs: "parse_slots busy = Inr qs" and bm: "bm = q # qs"
    by (auto split: sum.splits)
  obtain bs be where qq: "q = (bs, be)" by (cases q)
  from Cons.IH [OF qs] p q qq bm show ?case by auto
qed

text \<open>
  Claim C5. A request for a date that is not in the index is not available. For a date
  in the index whose working hours and requested times parse: a request that starts
  before the start of work or ends after the end of work is not available; and, when the
  merged busy slots parse, the request is available exactly when it lies within the
  working hours and, for every merged busy slot, ends at or before the start of the slot
  or starts at or after its end. A request that touches a busy slot at either end is
  thus available.
\<close>

theorem is_available_characterisation:
  "(map_of (days s) unknown = None \<longrightarrow> is_available s unknown start0 end0 = Inr False)
   \<and> (map_of (days s) date = Some work_day
        \<and> parse_time_range (day_start work_day) (day_end work_day) = Inr (ws, we)
        \<and> parse_time_range start end' = Inr (a, b) \<longrightarrow>
        ((a < ws \<or> we < b) \<longrightarrow> is_available s date start end' = Inr False)
        \<and> (parse_slots (get_busy_slots s date) = Inr bm \<longrightarrow>
             is_available s date start end'
               = Inr (ws \<le> a \<and> b \<le> we \<and> list_all (\<lambda>(bs, be). b \<le> bs \<or> be \<le> a) bm)))"
  by (auto simp add: is_available_def overlap_loop_minutes)

theorem is_available_characterisation_witness:
  "is_available (Scheduler test_data) ''2099-01-01'' ''10:00'' ''10:30'' = Inr False
   \<and> is_available (Scheduler test_data) ''2024-10-10'' ''08:00'' ''09:00'' = Inr False
   \<and> is_available (Scheduler test_data) ''2024-10-10'' ''10:00'' ''11:00'' = Inr True
   \<and> is_available (Scheduler test_data) ''2024-10-10'' ''12:00'' ''12:30'' = Inr True
   \<and> is_available (Scheduler test_data) ''2024-10-10'' ''11:30'' ''12:30'' = Inr False"
proof -
  let ?s = "Scheduler test_data"
  let ?wd = "\<lparr> day_id = 1, day_date = ''2024-10-10'', day_start = ''09:00'', day_end = ''18:00'' \<rparr>"
  have u: "map_of (days ?s) ''2099-01-01'' = None" by code_simp
  have k: "map_of (days ?s) ''2024-10-10'' = Some ?wd" by code_simp
  have w: "parse_time_range (day_start ?wd) (day_end ?wd) = Inr (540, 1080)" by code_simp
  have b: "parse_slots (get_busy_slots ?s ''2024-10-10'') = Inr [(660, 720)]" by code_simp
  have r1: "parse_time_range ''08:00'' ''09:00'' = Inr (480, 540)" by code_simp
  have r2: "parse_time_range ''10:00'' ''11:00'' = Inr (600, 660)" by code_simp
  have r3: "parse_time_range ''12:00'' ''12:30'' = Inr (720, 750)" by code_simp
  have r4: "parse_time_range ''11:30'' ''12:30'' = Inr (690, 750)" by code_simp
  from is_available_characterisation [of ?s "''2099-01-01''" "''10:00''" "''10:30''"] u
  have c0: "is_available ?s ''2099-01-01'' ''10:00'' ''10:30'' = Inr False" by blast
  from is_available_characterisation
    [of ?s _ _ _ "''2024-10-10''" ?wd 540 1080 "''08:00''" "''09:00''" 480 540] k w r1
  have c1: "is_available ?s ''2024-10-10'' ''08:00'' ''09:00'' = Inr False" by simp
  from is_available_characterisation
    [of ?s _ _ _ "''2024-10-10''" ?wd 540 1080 "''10:00''" "''11:00''" 600 660 "[(660, 720)]"]
    k w r2 b
  have c2: "is_available ?s ''2024-10-10'' ''10:00'' ''11:00'' = Inr True" by simp
  from is_available_characterisation
    [of ?s _ _ _ "''2024-10-10''" ?wd 540 1080 "''12:00''" "''12:30''" 720 750 "[(660, 720)]"]
    k w r3 b
  have c3: "is_available ?s ''2024-10-10'' ''12:00'' ''12:30'' = Inr True" by simp
  from is_available_characterisation
    [of ?s _ _ _ "''2024-10-10''" ?wd 540 1080 "''11:30''" "''12:30''" 690 750 "[(660, 720)]"]
    k w r4 b
  have c4: "is_available ?s ''2024-10-10'' ''11:30'' ''12:30'' = Inr False" by simp
  from c0 c1 c2 c3 c4 show ?thesis by blast
qed

section \<open>Free slots in minutes\<close>

lemma free_loop_minutes:
  "parse_slots busy = Inr bm \<Longrightarrow>
     free_loop busy acc c = Inr (acc @ map slot_time (gaps c bm), cursor c bm)"
proof (induction busy arbitrary: bm acc c)
  case Nil
  then show ?case by simp
next
  case (Cons p busy)
  obtain s e where p: "p = (s, e)" by (cases p)
  from Cons.prems p obtain q qs where q: "parse_time_range s e = Inr q"
    and qs: "parse_slots busy = Inr qs" and bm: "bm = q # qs"
    by (auto split: sum.splits)
  obtain bs be where qq: "q = (bs, be)" by (cases q)
  show ?case
    unfolding p bm qq using q qq Cons.IH [OF qs]
    by (simp add: slot_time_def)
qed

lemma free_loop_parses:
  "free_loop busy acc c = Inr r \<Longrightarrow> \<exists>bm. parse_slots busy = Inr bm"
proof (induction busy arbitrary: acc c)
  case Nil
  show ?case by simp
next
  case (Cons p busy)
  obtain s e where p: "p = (s, e)" by (cases p)
  from Cons.prems p obtain q where q: "parse_time_range s e = Inr q"
    by (auto split: sum.splits)
  obtain bs be where qq: "q = (bs, be)" by (cases q)
  from Cons.prems p q qq
  have "free_loop busy
          (if bs > c then acc @ [(minutes_to_time c, minutes_to_time bs)] else acc)
          (max c be) = Inr r" by simp
  from Cons.IH [OF this] obtain qs where "parse_slots busy = Inr qs" by blast
  with p q show ?case by simp
qed

lemma get_free_slots_minutes:
  assumes "map_of (days s) date = Some wd"
    and "parse_time_range (day_start wd) (day_end wd) = Inr (ws, we)"
    and "parse_slots (get_busy_slots s date) = Inr bm"
  shows "get_free_slots s date = Inr (map slot_time (free_minutes ws we bm))"
  using assms free_loop_minutes [OF assms(3), of "[]" ws]
  by (simp add: get_free_slots_def free_minutes_def slot_time_def)

lemma get_free_slots_cases:
  assumes "get_free_slots s date = Inr fs"
  shows "(map_of (days s) date = None \<and> fs = [])
    \<or> (\<exists>wd ws we bm. map_of (days s) date = Some wd
          \<and> parse_time_range (day_start wd) (day_end wd) = Inr (ws, we)
          \<and> parse_slots (get_busy_slots s date) = Inr bm
          \<and> fs = map slot_time (free_minutes ws we bm))"
proof (cases "map_of (days s) date")
  case None
  with assms show ?thesis by (simp add: get_free_slots_def)
next
  case (Some wd)
  with assms obtain ws we where w: "parse_time_range (day_start wd) (day_end wd) = Inr (ws, we)"
    by (auto simp add: get_free_slots_def split: sum.splits)
  with assms Some obtain r where "free_loop (get_busy_slots s date) [] ws = Inr r"
    by (auto simp add: get_free_slots_def split: sum.splits)
  then obtain bm where bm: "parse_slots (get_busy_slots s date) = Inr bm"
    using free_loop_parses by blast
  from get_free_slots_minutes [OF Some w bm] assms
  have "fs = map slot_time (free_minutes ws we bm)" by simp
  with Some w bm show ?thesis by blast
qed

lemma gaps_bounds: "p \<in> set (gaps c bm) \<Longrightarrow> c \<le> fst p \<and> fst p \<le> cursor c bm"
  and cursor_ge: "c \<le> cursor c bm"
proof (induction c bm rule: gaps.induct)
  case (1 c)
  { case 1 then show ?case by simp }
  { case 2 show ?case by simp }
next
  case (2 c b e rest)
  { case 1
    then consider "p = (c, b)" "b > c" | "p \<in> set (gaps (max c e) rest)"
      by (auto split: if_splits)
    then show ?case
    proof cases
      case 1
      with "2.IH"(2) show ?thesis by simp
    next
      case 2
      from "2.IH"(1) [OF this] show ?thesis by simp
    qed }
  { case 2
    from "2.IH"(2) show ?case by simp }
qed

lemma sorted_gaps: "sorted (map fst (gaps c bm))"
proof (induction c bm rule: gaps.induct)
  case (1 c)
  show ?case by simp
next
  case (2 c b e rest)
  have "\<forall>p \<in> set (gaps (max c e) rest). c \<le> fst p" using gaps_bounds by fastforce
  with 2 show ?case by simp
qed

lemma sorted_free_minutes: "sorted (map fst (free_minutes ws we bm))"
  using gaps_bounds [of _ ws bm]
  by (auto simp add: free_minutes_def sorted_gaps sorted_append)

lemma slot_time_inj: "map slot_time xs = map slot_time ys \<Longrightarrow> xs = ys"
  by (metis parse_slots_slot_time sum.inject(2))

lemma get_free_slots_sorted:
  assumes "get_free_slots s date = Inr (map slot_time fm)"
  shows "sorted (map fst fm)"
proof -
  from get_free_slots_cases [OF assms]
  consider "map slot_time fm = []"
    | ws we bm where "map slot_time fm = map slot_time (free_minutes ws we bm)" by blast
  then show ?thesis
  proof cases
    case 1
    then show ?thesis by simp
  next
    case 2
    then have "fm = free_minutes ws we bm" by (rule slot_time_inj)
    then show ?thesis by (simp add: sorted_free_minutes)
  qed
qed

lemma get_free_slots_formatted:
  assumes "get_free_slots s date = Inr fs"
  obtains fm where "fs = map slot_time fm"
  using get_free_slots_cases [OF assms] by (metis list.simps(8))

lemma slot_loop_minutes:
  "slot_loop date duration (map slot_time fm)
     = Inr (case find (fits duration) fm of
              None \<Rightarrow> None
            | Some p \<Rightarrow> Some (date, minutes_to_time (fst p), minutes_to_time (fst p + duration)))"
proof (induction fm)
  case Nil
  show ?case by simp
next
  case (Cons p fm)
  then show ?case
    by (simp add: slot_time_def time_to_minutes_minutes_to_time fits_def)
qed

section \<open>Search for a slot of a given duration\<close>

lemma find_append_option:
  "find P (xs @ ys) = (case find P xs of None \<Rightarrow> find P ys | Some x \<Rightarrow> Some x)"
  by (induction xs) simp_all

lemma find_map_Pair:
  "find (\<lambda>(date, a, b). duration \<le> b - a) (map (Pair date) fm)
     = map_option (Pair date) (find (fits duration) fm)"
  by (induction fm) (auto simp add: fits_def)

lemma date_loop_find:
  assumes "\<forall>date \<in> set ds. get_free_slots s date = Inr (map slot_time (fm date))"
  shows "date_loop s duration ds
     = Inr (case find (\<lambda>(date, a, b). duration \<le> b - a)
                   (concat (map (\<lambda>date. map (Pair date) (fm date)) ds)) of
              None \<Rightarrow> None
            | Some (date, a, b) \<Rightarrow>
                Some (date, minutes_to_time a, minutes_to_time (a + duration)))"
  using assms
proof (induction ds)
  case Nil
  show ?case by simp
next
  case (Cons x ds)
  from Cons.prems have x: "get_free_slots s x = Inr (map slot_time (fm x))"
    and r: "\<forall>date \<in> set ds. get_free_slots s date = Inr (map slot_time (fm date))"
    by simp_all
  show ?case
  proof (cases "find (fits duration) (fm x)")
    case None
    with x Cons.IH [OF r] show ?thesis
      by (simp add: slot_loop_minutes find_append_option find_map_Pair)
  next
    case (Some p)
    with x show ?thesis
      by (cases p) (simp add: slot_loop_minutes find_append_option find_map_Pair)
  qed
qed

text \<open>
  Claim C6. When the free slots of every known date are computed without error,
  \<open>fm date\<close> being those of \<open>date\<close> in minutes, the search returns the first slot
  that is long enough in the list of all (date, free slot) pairs, the dates taken in
  ascending order of their strings and the free slots of a date in the order of
  \<^verbatim>\<open>get_free_slots\<close>: the date, the start of the slot, and that start plus the duration.
  It returns \<^verbatim>\<open>None\<close> when no slot is long enough. The free slots of each date are in
  ascending order of start.
\<close>

theorem find_slot_for_duration_first_fit:
  assumes "\<forall>date \<in> set (map fst (days s)).
             get_free_slots s date = Inr (map slot_time (fm date))"
  shows "find_slot_for_duration s duration
     = Inr (case find (\<lambda>(date, a, b). duration \<le> b - a)
                   (concat (map (\<lambda>date. map (Pair date) (fm date))
                      (sort (map fst (days s))))) of
              None \<Rightarrow> None
            | Some (date, a, b) \<Rightarrow>
                Some (date, minutes_to_time a, minutes_to_time (a + duration)))
    \<and> sorted (sort (map fst (days s)))
    \<and> (\<forall>date \<in> set (map fst (days s)). sorted (map fst (fm date)))"
proof (intro conjI ballI)
  from assms
  have "\<forall>date \<in> set (sort (map fst (days s))).
          get_free_slots s date = Inr (map slot_time (fm date))" by simp
  then show "find_slot_for_duration s duration
     = Inr (case find (\<lambda>(date, a, b). duration \<le> b - a)
                   (concat (map (\<lambda>date. map (Pair date) (fm date))
                      (sort (map fst (days s))))) of
              None \<Rightarrow> None
            | Some (date, a, b) \<Rightarrow>
                Some (date, minutes_to_time a, minutes_to_time (a + duration)))"
    unfolding find_slot_for_duration_def by (rule date_loop_find)
next
  show "sorted (sort (map fst (days s)))" by simp
next
  fix date assume "date \<in> set (map fst (days s))"
  with assms have "get_free_slots s date = Inr (map slot_time (fm date))" by blast
  then show "sorted (map fst (fm date))" by (rule get_free_slots_sorted)
qed

lemma find_SomeD: "find P xs = Some y \<Longrightarrow> y \<in> set xs \<and> P y"
  by (induction xs) (auto split: if_splits)

lemma find_fits_mono:
  assumes "sorted (map fst fm)" and "d1 \<le> d2"
    and "find (fits d1) fm = Some p1" and "find (fits d2) fm = Some p2"
  shows "fst p1 \<le> fst p2"
  using assms
proof (induction fm)
  case Nil
  then show ?case by simp
next
  case (Cons x fm)
  show ?case
  proof (cases "fits d1 x")
    case True
    with Cons.prems(3) have p1: "p1 = x" by simp
    from Cons.prems(4) have "p2 \<in> set (x # fm)" by (blast dest: find_SomeD)
    with Cons.prems(1) p1 show ?thesis by auto
  next
    case False
    with Cons.prems(2) have "\<not> fits d2 x" by (simp add: fits_def)
    with False Cons show ?thesis by simp
  qed
qed

lemma date_loop_Some:
  assumes "date_loop s duration ds = Inr (Some r)" and "sorted ds"
  shows "\<exists>date fm p. r = (date, minutes_to_time (fst p), minutes_to_time (fst p + duration))
      \<and> date \<in> set ds
      \<and> get_free_slots s date = Inr (map slot_time fm)
      \<and> find (fits duration) fm = Some p
      \<and> (\<forall>date' \<in> set ds. date' < date \<longrightarrow>
           (\<exists>fm'. get_free_slots s date' = Inr (map slot_time fm')
              \<and> find (fits duration) fm' = None))"
  using assms
proof (induction ds)
  case Nil
  then show ?case by simp
next
  case (Cons x ds)
  from Cons.prems(1) obtain fs where fs: "get_free_slots s x = Inr fs"
    by (auto split: sum.splits)
  then obtain fm where fm: "fs = map slot_time fm" by (rule get_free_slots_formatted)
  from Cons.prems(2) have low: "\<forall>date' \<in> set ds. x \<le> date'" and sd: "sorted ds" by simp_all
  show ?case
  proof (cases "find (fits duration) fm")
    case None
    with Cons.prems(1) fs fm have "date_loop s duration ds = Inr (Some r)"
      by (simp add: slot_loop_minutes)
    from Cons.IH [OF this sd] obtain date fm2 p where
      r: "r = (date, minutes_to_time (fst p), minutes_to_time (fst p + duration))"
      and d: "date \<in> set ds" and g: "get_free_slots s date = Inr (map slot_time fm2)"
      and f: "find (fits duration) fm2 = Some p"
      and e: "\<forall>date' \<in> set ds. date' < date \<longrightarrow>
           (\<exists>fm'. get_free_slots s date' = Inr (map slot_time fm')
              \<and> find (fits duration) fm' = None)" by blast
    from e fs fm None
    have "\<forall>date' \<in> set (x # ds). date' < date \<longrightarrow>
           (\<exists>fm'. get_free_slots s date' = Inr (map slot_time fm')
              \<and> find (fits duration) fm' = None)" by auto
    with r d g f show ?thesis by (intro exI [of _ date] exI [of _ fm2] exI [of _ p]) simp
  next
    case (Some p)
    with Cons.prems(1) fs fm
    have r: "r = (x, minutes_to_time (fst p), minutes_to_time (fst p + duration))"
      by (simp add: slot_loop_minutes)
    from low have "\<forall>date' \<in> set (x # ds). \<not> date' < x" by auto
    with r fs fm Some show ?thesis by (intro exI [of _ x] exI [of _ fm] exI [of _ p]) simp
  qed
qed

theorem find_slot_for_duration_first_fit_witness:
  "find_slot_for_duration (Scheduler test_data) 60
     = Inr (Some (''2024-10-10'', ''09:00'', ''10:00''))
   \<and> find_slot_for_duration (Scheduler test_data) 90
     = Inr (Some (''2024-10-10'', ''09:00'', ''10:30''))
   \<and> find_slot_for_duration (Scheduler test_data) 1000 = Inr None"
proof -
  let ?s = "Scheduler test_data"
  have h: "\<forall>date \<in> set (map fst (days ?s)).
             get_free_slots ?s date = Inr (map slot_time (test_free_minutes date))"
    by code_simp
  note t = find_slot_for_duration_first_fit [OF h, THEN conjunct1]
  have "find_slot_for_duration ?s 60 = Inr (Some (''2024-10-10'', ''09:00'', ''10:00''))"
    unfolding t [of 60] by code_simp
  moreover
  have "find_slot_for_duration ?s 90 = Inr (Some (''2024-10-10'', ''09:00'', ''10:30''))"
    unfolding t [of 90] by code_simp
  moreover have "find_slot_for_duration ?s 1000 = Inr None"
    unfolding t [of 1000] by code_simp
  ultimately show ?thesis by blast
qed

text \<open>
  Claim C7. When the search succeeds for two durations \<open>d1 \<le> d2\<close>, the result for
  \<open>d1\<close> is on an earlier date, or on the same date with a start, in minutes, not after
  the start of the result for \<open>d2\<close>.
\<close>

theorem find_slot_for_duration_monotone:
  assumes "d1 \<le> d2"
    and "find_slot_for_duration s d1 = Inr (Some (date1, start1, end1))"
    and "find_slot_for_duration s d2 = Inr (Some (date2, start2, end2))"
  shows "date1 < date2
    \<or> (date1 = date2
        \<and> (\<exists>m1 m2. time_to_minutes start1 = Inr m1 \<and> time_to_minutes start2 = Inr m2
              \<and> m1 \<le> m2))"
proof -
  let ?ds = "sort (map fst (days s))"
  have sd: "sorted ?ds" by simp
  from assms(2) have "date_loop s d1 ?ds = Inr (Some (date1, start1, end1))"
    by (simp add: find_slot_for_duration_def)
  from date_loop_Some [OF this sd] obtain d1' fm1 p1 where
    r1: "(date1, start1, end1)
           = (d1', minutes_to_time (fst p1), minutes_to_time (fst p1 + d1))"
    and g1': "get_free_slots s d1' = Inr (map slot_time fm1)"
    and f1: "find (fits d1) fm1 = Some p1"
    and e1': "\<forall>date' \<in> set ?ds. date' < d1' \<longrightarrow>
           (\<exists>fm'. get_free_slots s date' = Inr (map slot_time fm')
              \<and> find (fits d1) fm' = None)" by blast
  from r1 have s1: "start1 = minutes_to_time (fst p1)" and "d1' = date1" by simp_all
  with g1' e1' have g1: "get_free_slots s date1 = Inr (map slot_time fm1)"
    and e1: "\<forall>date' \<in> set ?ds. date' < date1 \<longrightarrow>
           (\<exists>fm'. get_free_slots s date' = Inr (map slot_time fm')
              \<and> find (fits d1) fm' = None)" by simp_all
  from assms(3) have "date_loop s d2 ?ds = Inr (Some (date2, start2, end2))"
    by (simp add: find_slot_for_duration_def)
  from date_loop_Some [OF this sd] obtain d2' fm2 p2 where
    r2: "(date2, start2, end2)
           = (d2', minutes_to_time (fst p2), minutes_to_time (fst p2 + d2))"
    and m2': "d2' \<in> set ?ds"
    and g2': "get_free_slots s d2' = Inr (map slot_time fm2)"
    and f2: "find (fits d2) fm2 = Some p2" by blast
  from r2 have s2: "start2 = minutes_to_time (fst p2)" and "d2' = date2" by simp_all
  with m2' g2' have m2: "date2 \<in> set ?ds"
    and g2: "get_free_slots s date2 = Inr (map slot_time fm2)" by simp_all
  from f2 have p2: "p2 \<in> set fm2" "fits d2 p2" by (blast dest: find_SomeD)+
  with assms(1) have p2': "fits d1 p2" by (simp add: fits_def)
  have "\<not> date2 < date1"
  proof
    assume "date2 < date1"
    with e1 m2 obtain fm' where "get_free_slots s date2 = Inr (map slot_time fm')"
      and n: "find (fits d1) fm' = None" by blast
    with g2 have "fm' = fm2" by (simp add: slot_time_inj)
    moreover from n have "\<not> (\<exists>x. x \<in> set fm' \<and> fits d1 x)" by (simp add: find_None_iff)
    ultimately show False using p2(1) p2' by blast
  qed
  then consider "date1 < date2" | "date1 = date2" by fastforce
  then show ?thesis
  proof cases
    case 1
    then show ?thesis by simp
  next
    case 2
    with g1 g2 have fm: "fm1 = fm2" by (simp add: slot_time_inj)
    from g1 have "sorted (map fst fm1)" by (rule get_free_slots_sorted)
    from find_fits_mono [OF this assms(1) f1] f2 fm have "fst p1 \<le> fst p2" by simp
    with 2 s1 s2 show ?thesis by (simp add: time_to_minutes_minutes_to_time)
  qed
qed


theorem find_slot_for_duration_monotone_witness:
  "find_slot_for_duration (Scheduler test_data) 60
     = Inr (Some (''2024-10-10'', ''09:00'', ''10:00''))
   \<and> find_slot_for_duration (Scheduler test_data) 300
     = Inr (Some (''2024-10-10'', ''12:00'', ''17:00''))
   \<and> (\<exists>m1 m2. time_to_minutes ''09:00'' = Inr m1 \<and> time_to_minutes ''12:00'' = Inr m2
          \<and> m1 \<le> m2)"
proof -
  let ?s = "Scheduler test_data"
  have h1: "find_slot_for_duration ?s 60 = Inr (Some (''2024-10-10'', ''09:00'', ''10:00''))"
    by code_simp
  have h2: "find_slot_for_duration ?s 300 = Inr (Some (''2024-10-10'', ''12:00'', ''17:00''))"
    by code_simp
  have le: "(60::int) \<le> 300" by simp
  from find_slot_for_duration_monotone [OF le h1 h2]
  have "\<exists>m1 m2. time_to_minutes ''09:00'' = Inr m1 \<and> time_to_minutes ''12:00'' = Inr m2
          \<and> m1 \<le> m2" by simp
  with h1 h2 show ?thesis by blast
qed

section \<open>Free and busy slots partition the working hours\<close>

lemma covering_simps:
  "covering m [] = 0"
  "covering m (p # l) = (if fst p \<le> m \<and> m < snd p then 1 else 0) + covering m l"
  "covering m (l @ l') = covering m l + covering m l'"
  by (simp_all add: covering_def)

lemma merge_from_within:
  assumes "within ws we cur" and "list_all (within ws we) xs"
  shows "list_all (within ws we) (merge_from cur xs)"
  using assms
proof (induction cur xs rule: merge_from.induct)
  case (1 cur)
  then show ?case by simp
next
  case (2 cur x xs)
  from "2.prems" have c: "within ws we cur" and x: "within ws we x"
    and r: "list_all (within ws we) xs" by simp_all
  show ?case
  proof (cases "fst x \<le> snd cur")
    case True
    from c x have "within ws we (fst cur, max (snd cur) (snd x))"
      by (simp add: within_def max_def)
    from "2.IH"(1) [OF True this r] True show ?thesis by simp
  next
    case False
    from "2.IH"(2) [OF False x r] False c show ?thesis by simp
  qed
qed

lemma merge_overlapping_slots_within:
  assumes "list_all (within ws we) xs"
  shows "list_all (within ws we) (merge_overlapping_slots xs)"
proof (cases "sort_key fst xs")
  case Nil
  then show ?thesis by (simp add: merge_overlapping_slots_sorted_input)
next
  case (Cons y ys)
  from assms have "list_all (within ws we) (sort_key fst xs)" by (simp add: list_all_sort_key)
  with Cons have "within ws we y" "list_all (within ws we) ys" by simp_all
  then have "list_all (within ws we) (merge_from y ys)" by (rule merge_from_within)
  with Cons show ?thesis by (simp add: merge_overlapping_slots_sorted_input)
qed

lemma covering_gaps:
  assumes "c \<le> we" and "sorted_wrt (\<lambda>a b. snd a < fst b) bm" and "list_all (within c we) bm"
  shows "covering m (gaps c bm)
           + covering m (if cursor c bm < we then [(cursor c bm, we)] else [])
           + covering m bm
         = (if c \<le> m \<and> m < we then 1 else 0)"
  using assms
proof (induction bm arbitrary: c)
  case Nil
  then show ?case by (simp add: covering_simps)
next
  case (Cons p bm)
  obtain b e where p: "p = (b, e)" by (cases p)
  from Cons.prems(3) have wp: "within c we p" and r: "list_all (within c we) bm" by simp_all
  from wp p have w: "c \<le> b" "b \<le> e" "e \<le> we" by (simp_all add: within_def)
  from Cons.prems(2) p have g: "\<forall>q \<in> set bm. e < fst q"
    and s: "sorted_wrt (\<lambda>a b. snd a < fst b) bm" by simp_all
  have "list_all (within e we) bm"
    unfolding list_all_iff
  proof
    fix q assume q: "q \<in> set bm"
    with g have "e < fst q" by blast
    moreover from r q have "within c we q" by (simp add: list_all_iff)
    ultimately show "within e we q" by (simp add: within_def)
  qed
  from Cons.IH [OF w(3) s this]
  have ih: "covering m (gaps e bm)
           + covering m (if cursor e bm < we then [(cursor e bm, we)] else [])
           + covering m bm
         = (if e \<le> m \<and> m < we then 1 else 0)" .
  define G where "G = covering m (gaps e bm)"
  define T where "T = covering m (if cursor e bm < we then [(cursor e bm, we)] else [])"
  define B where "B = covering m bm"
  define I1 :: nat where "I1 = (if c \<le> m \<and> m < b then 1 else 0)"
  define I2 :: nat where "I2 = (if b \<le> m \<and> m < e then 1 else 0)"
  define I3 :: nat where "I3 = (if e \<le> m \<and> m < we then 1 else 0)"
  from w have mx: "max c e = e" by simp
  have g': "covering m (gaps c (p # bm)) = I1 + G"
    using w by (simp add: p mx covering_simps I1_def G_def)
  have t': "covering m (if cursor c (p # bm) < we then [(cursor c (p # bm), we)] else []) = T"
    by (simp add: p mx T_def)
  have b': "covering m (p # bm) = I2 + B"
    by (simp add: p covering_simps I2_def B_def)
  from ih have ih': "G + T + B = I3" by (simp only: G_def T_def B_def I3_def)
  from w have "I1 + I2 + I3 = (if c \<le> m \<and> m < we then 1 else 0)"
    by (auto simp add: I1_def I2_def I3_def)
  with ih' show ?case unfolding g' t' b' by linarith
qed

lemma covering_free_minutes:
  assumes "ws \<le> we" and "sorted_wrt (\<lambda>a b. snd a < fst b) bm" and "list_all (within ws we) bm"
  shows "covering m (free_minutes ws we bm @ bm) = (if ws \<le> m \<and> m < we then 1 else 0)"
  using covering_gaps [OF assms, of m] by (simp add: free_minutes_def covering_simps)

lemma union_covering: "(m \<in> (\<Union>p \<in> set l. minutes p)) = (0 < covering m l)"
  by (induction l) (auto simp add: covering_simps minutes_def)

lemma disjoint_covering:
  assumes "\<And>m. covering m l \<le> 1"
  shows "sorted_wrt (\<lambda>p q. minutes p \<inter> minutes q = {}) l"
  using assms
proof (induction l)
  case Nil
  show ?case by simp
next
  case (Cons p l)
  have r: "covering m l \<le> 1" for m
    using Cons.prems [of m] by (simp add: covering_simps)
  have "minutes p \<inter> minutes q = {}" if q: "q \<in> set l" for q
  proof (rule ccontr)
    assume "minutes p \<inter> minutes q \<noteq> {}"
    then obtain m where m: "m \<in> minutes p" "m \<in> minutes q" by blast
    from m(2) q have "m \<in> (\<Union>p \<in> set l. minutes p)" by blast
    then have "0 < covering m l" by (simp only: union_covering)
    moreover from m(1) have "covering m (p # l) = 1 + covering m l"
      by (simp add: covering_simps minutes_def)
    ultimately show False using Cons.prems [of m] by simp
  qed
  with Cons.IH [OF r] show ?case by simp
qed

text \<open>
  Claim C2, amended. Take a date of the index whose working hours parse to \<open>ws < we\<close>
  and whose raw busy slots are pairs of well-formed zero-padded \<^verbatim>\<open>HH:MM\<close> strings, each
  an interval within the working hours: \<open>ws \<le> start \<le> end \<le> we\<close>. Then the free
  slots are computed without error and, read as minutes together with the merged busy
  slots, they cover exactly the minutes from \<open>ws\<close> up to \<open>we\<close>, and no two of these
  slots share a minute. The condition on the format is needed: the busy slots are
  sorted and merged as strings, and only on zero-padded times is the order of strings
  the order of minutes.
\<close>

theorem free_and_busy_partition:
  assumes "map_of (days s) date = Some work_day"
    and "parse_time_range (day_start work_day) (day_end work_day) = Inr (ws, we)"
    and "ws < we"
    and "map_of (timeslots s) date = Some raw"
    and "list_all wf_slot raw"
    and "parse_slots raw = Inr rm"
    and "list_all (within ws we) rm"
  shows "\<exists>fs fm bm. get_free_slots s date = Inr fs
    \<and> parse_slots fs = Inr fm
    \<and> parse_slots (get_busy_slots s date) = Inr bm
    \<and> (\<Union>p \<in> set (fm @ bm). minutes p) = {ws..<we}
    \<and> (\<forall>i j. i < j \<and> j < length (fm @ bm) \<longrightarrow>
          minutes ((fm @ bm) ! i) \<inter> minutes ((fm @ bm) ! j) = {})"
proof -
  from assms(5) obtain ms where ms: "raw = map slot_time ms" "list_all in_day ms"
    by (rule wf_slots_minutes)
  with assms(6) have "rm = ms" by (simp add: parse_slots_slot_time)
  with ms have raw: "raw = map slot_time rm" and d: "list_all in_day rm" by simp_all
  let ?bm = "merge_overlapping_slots rm"
  let ?fm = "free_minutes ws we ?bm"
  from assms(4) raw have busy: "get_busy_slots s date = map slot_time ?bm"
    by (simp add: get_busy_slots_def merge_overlapping_slots_slot_time [OF d])
  then have pb: "parse_slots (get_busy_slots s date) = Inr ?bm"
    by (simp add: parse_slots_slot_time)
  from get_free_slots_minutes [OF assms(1) assms(2) pb]
  have free: "get_free_slots s date = Inr (map slot_time ?fm)" .
  have pf: "parse_slots (map slot_time ?fm) = Inr ?fm" by (rule parse_slots_slot_time)
  from assms(3) have le: "ws \<le> we" by simp
  have g: "sorted_wrt (\<lambda>a b. snd a < fst b) ?bm" by (rule merge_overlapping_slots_gaps)
  from assms(7) have w: "list_all (within ws we) ?bm" by (rule merge_overlapping_slots_within)
  note c = covering_free_minutes [OF le g w]
  have u: "(\<Union>p \<in> set (?fm @ ?bm). minutes p) = {ws..<we}"
  proof (rule set_eqI)
    fix m
    show "(m \<in> (\<Union>p \<in> set (?fm @ ?bm). minutes p)) = (m \<in> {ws..<we})"
      unfolding union_covering c [of m] by simp
  qed
  have "covering m (?fm @ ?bm) \<le> 1" for m unfolding c [of m] by simp
  then have "sorted_wrt (\<lambda>p q. minutes p \<inter> minutes q = {}) (?fm @ ?bm)"
    by (rule disjoint_covering)
  then have dj: "\<forall>i j. i < j \<and> j < length (?fm @ ?bm) \<longrightarrow>
          minutes ((?fm @ ?bm) ! i) \<inter> minutes ((?fm @ ?bm) ! j) = {}"
    by (simp only: sorted_wrt_iff_nth_less) blast
  from free pf pb u dj show ?thesis by blast
qed


theorem free_and_busy_partition_witness:
  "get_free_slots (Scheduler overlapping_data) ''2024-10-10''
     = Inr [(''09:00'', ''10:00''), (''12:00'', ''13:30''), (''14:00'', ''18:00'')]
   \<and> get_busy_slots (Scheduler overlapping_data) ''2024-10-10''
     = [(''10:00'', ''12:00''), (''13:30'', ''14:00'')]
   \<and> (\<exists>fs fm bm. get_free_slots (Scheduler overlapping_data) ''2024-10-10'' = Inr fs
        \<and> parse_slots fs = Inr fm
        \<and> parse_slots (get_busy_slots (Scheduler overlapping_data) ''2024-10-10'') = Inr bm
        \<and> (\<Union>p \<in> set (fm @ bm). minutes p) = {540..<1080}
        \<and> (\<forall>i j. i < j \<and> j < length (fm @ bm) \<longrightarrow>
              minutes ((fm @ bm) ! i) \<inter> minutes ((fm @ bm) ! j) = {}))"
proof -
  let ?s = "Scheduler overlapping_data"
  let ?wd = "\<lparr> day_id = 1, day_date = ''2024-10-10'', day_start = ''09:00'', day_end = ''18:00'' \<rparr>"
  let ?raw = "[(''13:30'', ''14:00''), (''10:00'', ''11:15''), (''11:15'', ''12:00'')]"
  have k: "map_of (days ?s) ''2024-10-10'' = Some ?wd" by code_simp
  have w: "parse_time_range (day_start ?wd) (day_end ?wd) = Inr (540, 1080)" by code_simp
  have lt: "(540::int) < 1080" by simp
  have t: "map_of (timeslots ?s) ''2024-10-10'' = Some ?raw" by code_simp
  have wf: "list_all wf_slot ?raw" by code_simp
  have p: "parse_slots ?raw = Inr [(810, 840), (600, 675), (675, 720)]" by code_simp
  have c: "list_all (within 540 1080) [(810, 840), (600, 675), (675, 720)]"
    by (simp add: within_def)
  have f: "get_free_slots ?s ''2024-10-10''
     = Inr [(''09:00'', ''10:00''), (''12:00'', ''13:30''), (''14:00'', ''18:00'')]"
    by code_simp
  have b: "get_busy_slots ?s ''2024-10-10'' = [(''10:00'', ''12:00''), (''13:30'', ''14:00'')]"
    by code_simp
  from f b free_and_busy_partition [OF k w lt t wf p c] show ?thesis by blast
qed

text \<open>
  Without the condition on the format the partition fails. On a day from 09:00 to 18:00
  with the busy slots 9:30 to 10:00 and 10:00 to 11:00, both within the working hours,
  the string \<^verbatim>\<open>10:00\<close> sorts before \<^verbatim>\<open>9:30\<close>, and \<^verbatim>\<open>9:30\<close> is not at most
  \<^verbatim>\<open>11:00\<close> as a string, so the two busy slots are returned unmerged and out of
  order; the loop of the free slots then leaves its cursor at 11:00 when it meets the
  slot from 9:30, and the free slot from 09:00 to 10:00 shares the minute 570 with the
  busy slot from 9:30 to 10:00.
\<close>

theorem free_and_busy_overlap_unpadded:
  "map_of (timeslots (Scheduler unpadded_data)) ''2024-10-10''
     = Some [(''9:30'', ''10:00''), (''10:00'', ''11:00'')]
   \<and> parse_time_range ''09:00'' ''18:00'' = Inr (540, 1080)
   \<and> parse_slots [(''9:30'', ''10:00''), (''10:00'', ''11:00'')] = Inr [(570, 600), (600, 660)]
   \<and> list_all (within 540 1080) [(570, 600), (600, 660)]
   \<and> get_busy_slots (Scheduler unpadded_data) ''2024-10-10''
     = [(''10:00'', ''11:00''), (''9:30'', ''10:00'')]
   \<and> get_free_slots (Scheduler unpadded_data) ''2024-10-10''
     = Inr [(''09:00'', ''10:00''), (''11:00'', ''18:00'')]
   \<and> parse_slots [(''09:00'', ''10:00''), (''11:00'', ''18:00'')] = Inr [(540, 600), (660, 1080)]
   \<and> parse_slots [(''10:00'', ''11:00''), (''9:30'', ''10:00'')] = Inr [(600, 660), (570, 600)]
   \<and> 570 \<in> minutes (540, 600) \<inter> minutes (570, 600)"
proof -
  have "(570::int) \<in> minutes (540, 600) \<inter> minutes (570, 600)" by (simp add: minutes_def)
  moreover have "list_all (within 540 1080) [(570, 600), (600, 660)]" by (simp add: within_def)
  moreover have "map_of (timeslots (Scheduler unpadded_data)) ''2024-10-10''
     = Some [(''9:30'', ''10:00''), (''10:00'', ''11:00'')]" by code_simp
  moreover have "parse_time_range ''09:00'' ''18:00'' = Inr (540, 1080)" by code_simp
  moreover have "parse_slots [(''9:30'', ''10:00''), (''10:00'', ''11:00'')]
     = Inr [(570, 600), (600, 660)]" by code_simp
  moreover have "get_busy_slots (Scheduler unpadded_data) ''2024-10-10''
     = [(''10:00'', ''11:00''), (''9:30'', ''10:00'')]" by code_simp
  moreover have "get_free_slots (Scheduler unpadded_data) ''2024-10-10''
     = Inr [(''09:00'', ''10:00''), (''11:00'', ''18:00'')]" by code_simp
  moreover have "parse_slots [(''09:00'', ''10:00''), (''11:00'', ''18:00'')]
     = Inr [(540, 600), (660, 1080)]" by code_simp
  moreover have "parse_slots [(''10:00'', ''11:00''), (''9:30'', ''10:00'')]
     = Inr [(600, 660), (570, 600)]" by code_simp
  ultimately show ?thesis by blast
qed

end
